theory Spec2Isabelle
  imports Main "HOL-Library.Word"
begin

unbundle bit_operations_syntax

section \<open>The packed state word\<close>

text \<open>
  \<^verbatim>\<open>upgrade_mutex\<close> keeps its whole state in one \<^verbatim>\<open>std::atomic<uint32_t> state_\<close>:
  bit 31 says that the exclusive lock is held, bit 30 that the upgradeable lock is held,
  bit 29 that an upgrade to exclusive is pending, and bits 0 to 28 count the shared
  holders. The constants are those of the class, written as the source writes them.
\<close>

type_synonym uint32_t = "32 word"

definition WRITE_LOCKED_FLAG :: uint32_t where
  "WRITE_LOCKED_FLAG = push_bit 31 1"

definition UPGRADE_LOCKED_FLAG :: uint32_t where
  "UPGRADE_LOCKED_FLAG = push_bit 30 1"

definition UPGRADE_PENDING_FLAG :: uint32_t where
  "UPGRADE_PENDING_FLAG = push_bit 29 1"

definition READER_COUNT_MASK :: uint32_t where
  "READER_COUNT_MASK = NOT (WRITE_LOCKED_FLAG OR UPGRADE_LOCKED_FLAG OR UPGRADE_PENDING_FLAG)"

definition ONE_READER :: uint32_t where
  "ONE_READER = 1"

text \<open>
  The four fields of a state word, read with the masks above the way every method of
  the class reads them (\<^verbatim>\<open>(state & FLAG) == 0\<close>, \<^verbatim>\<open>state & READER_COUNT_MASK\<close>).
\<close>

definition WRITER :: "uint32_t \<Rightarrow> bool" where
  "WRITER s = (s AND WRITE_LOCKED_FLAG \<noteq> 0)"

definition UPGRADER :: "uint32_t \<Rightarrow> bool" where
  "UPGRADER s = (s AND UPGRADE_LOCKED_FLAG \<noteq> 0)"

definition PENDING :: "uint32_t \<Rightarrow> bool" where
  "PENDING s = (s AND UPGRADE_PENDING_FLAG \<noteq> 0)"

definition READERS :: "uint32_t \<Rightarrow> nat" where
  "READERS s = unat (s AND READER_COUNT_MASK)"

section \<open>Atomic operations on the state word\<close>

text \<open>
  The atomic cell is passed explicitly. A read-modify-write returns the value it found
  together with the new content of the cell; \<^verbatim>\<open>compare_exchange_strong\<close> returns
  whether it stored. The atomics are taken as sequentially consistent: the memory
  orders of the source are not part of this model.
\<close>

definition fetch_sub :: "uint32_t \<Rightarrow> uint32_t \<Rightarrow> uint32_t \<times> uint32_t" where
  "fetch_sub cell v = (cell, cell - v)"

definition fetch_or :: "uint32_t \<Rightarrow> uint32_t \<Rightarrow> uint32_t \<times> uint32_t" where
  "fetch_or cell v = (cell, cell OR v)"

definition compare_exchange_strong :: "uint32_t \<Rightarrow> uint32_t \<Rightarrow> uint32_t \<Rightarrow> bool \<times> uint32_t" where
  "compare_exchange_strong cell expected desired =
     (if cell = expected then (True, desired) else (False, cell))"

section \<open>The wait predicates\<close>

text \<open>
  Each blocking method hands a lambda to \<^verbatim>\<open>condition_variable::wait\<close>. The lambdas of
  \<^verbatim>\<open>lock\<close>, \<^verbatim>\<open>lock_shared\<close> and \<^verbatim>\<open>lock_upgrade\<close> load the word into
  \<^verbatim>\<open>current_state\<close> and then try a compare-exchange against the cell. The first
  argument is the value the load returned, the second the cell when the compare-exchange
  runs; the two differ when a release of another thread came in between. The result is
  the lambda's return value and the cell afterwards.
\<close>

definition lock_predicate :: "uint32_t \<Rightarrow> uint32_t \<Rightarrow> bool \<times> uint32_t" where
  "lock_predicate current_state cell =
     (if current_state = 0
      then compare_exchange_strong cell current_state WRITE_LOCKED_FLAG
      else (False, cell))"

definition lock_shared_predicate :: "uint32_t \<Rightarrow> uint32_t \<Rightarrow> bool \<times> uint32_t" where
  "lock_shared_predicate current_state cell =
     (if current_state AND WRITE_LOCKED_FLAG = 0 \<and> current_state AND UPGRADE_PENDING_FLAG = 0
      then (let new_state = current_state + ONE_READER
            in compare_exchange_strong cell current_state new_state)
      else (False, cell))"

definition lock_upgrade_predicate :: "uint32_t \<Rightarrow> uint32_t \<Rightarrow> bool \<times> uint32_t" where
  "lock_upgrade_predicate current_state cell =
     (if current_state AND WRITE_LOCKED_FLAG = 0 \<and> current_state AND UPGRADE_LOCKED_FLAG = 0
      then (let new_state = current_state OR UPGRADE_LOCKED_FLAG
            in compare_exchange_strong cell current_state new_state)
      else (False, cell))"

definition upgrade_to_unique_predicate :: "uint32_t \<Rightarrow> bool" where
  "upgrade_to_unique_predicate cell = (cell AND READER_COUNT_MASK = 0)"

section \<open>Gates, waiting threads and the mutex object\<close>

datatype gate = gate1 | gate2

datatype notification = notified_one gate | notified_all gate

text \<open>
  The members \<^verbatim>\<open>state_\<close>, \<^verbatim>\<open>internal_mutex_\<close>, \<^verbatim>\<open>gate1_\<close> and \<^verbatim>\<open>gate2_\<close> are
  written without their trailing underscore. A thread is outside the mutex
  (\<open>Idle\<close>), or inside the \<^verbatim>\<open>wait\<close> of one of the four blocking methods:
  about to run the predicate (\<open>Testing\<close>: it has just called, or it was woken),
  inside the predicate between its load of the word and its compare-exchange, with the
  value \<^verbatim>\<open>current_state\<close> it loaded (\<open>Loaded\<close>), or blocked on the gate
  (\<open>Parked\<close>). A blocked thread tests its predicate again only after it was woken.
\<close>

datatype waiting = in_lock | in_lock_shared | in_lock_upgrade | in_upgrade_to_unique

datatype status = Idle | Testing waiting | Loaded waiting uint32_t | Parked waiting

fun gate_of :: "waiting \<Rightarrow> gate" where
  "gate_of in_lock = gate2"
| "gate_of in_lock_shared = gate1"
| "gate_of in_lock_upgrade = gate1"
| "gate_of in_upgrade_to_unique = gate2"

fun parked_on :: "gate \<Rightarrow> status \<Rightarrow> bool" where
  "parked_on g (Parked w) = (gate_of w = g)"
| "parked_on g Idle = False"
| "parked_on g (Testing w) = False"
| "parked_on g (Loaded w current_state) = False"

fun wake :: "status \<Rightarrow> status" where
  "wake (Parked w) = Testing w"
| "wake Idle = Idle"
| "wake (Testing w) = Testing w"
| "wake (Loaded w current_state) = Loaded w current_state"

fun waiters_from :: "nat \<Rightarrow> gate \<Rightarrow> status list \<Rightarrow> nat list" where
  "waiters_from i g [] = []"
| "waiters_from i g (st # sts) =
     (if parked_on g st then i # waiters_from (Suc i) g sts else waiters_from (Suc i) g sts)"

text \<open>
  The mutex object: the state word, the owner of \<^verbatim>\<open>internal_mutex_\<close> if it is taken,
  and for the two condition variables the status of every thread (thread \<open>t\<close> is the
  \<open>t\<close>-th entry) and the log of the notifications made so far. The last three fields
  are no members of the class: they record which threads hold the mutex in which mode,
  so that the callers' obligations (release only what you hold) can be written down.
\<close>

record upgrade_mutex =
  state :: uint32_t
  internal_mutex :: "nat option"
  threads :: "status list"
  signals :: "notification list"
  shared_holders :: "nat list"
  upgrade_holder :: "nat option"
  unique_holder :: "nat option"

definition init :: "nat \<Rightarrow> upgrade_mutex" where
  "init n = \<lparr>state = 0, internal_mutex = None, threads = replicate n Idle, signals = [],
     shared_holders = [], upgrade_holder = None, unique_holder = None\<rparr>"

text \<open>
  \<^verbatim>\<open>notify_all\<close> wakes every thread blocked on the gate. \<^verbatim>\<open>notify_one\<close> wakes one of
  them if there is any; which one is left open by the C++ standard and is a parameter
  here: \<open>pick\<close> picks among the blocked threads (the first of them when its answer
  is not among them).
\<close>

type_synonym chooser = "nat list \<Rightarrow> nat"

definition notify_all :: "gate \<Rightarrow> upgrade_mutex \<Rightarrow> upgrade_mutex" where
  "notify_all g m = m\<lparr>threads := map (\<lambda>st. if parked_on g st then wake st else st) (threads m),
     signals := signals m @ [notified_all g]\<rparr>"

definition notify_one :: "chooser \<Rightarrow> gate \<Rightarrow> upgrade_mutex \<Rightarrow> upgrade_mutex" where
  "notify_one pick g m =
     (let ths = threads m;
          ths' = (case waiters_from 0 g ths of
                    [] \<Rightarrow> ths
                  | w # ws \<Rightarrow>
                      (let t = (if pick (w # ws) \<in> set (w # ws) then pick (w # ws) else w)
                       in ths[t := wake (ths ! t)]))
      in m\<lparr>threads := ths', signals := signals m @ [notified_one g]\<rparr>)"

section \<open>The methods of the mutex\<close>

text \<open>
  A method is run by a thread \<open>t\<close>. \<^verbatim>\<open>gate.wait(internal_lock, pred)\<close> is the loop
  \<^verbatim>\<open>while (!pred()) wait(internal_lock)\<close>: a blocking method runs up to its wait and
  leaves the thread about to test the predicate (\<open>begin_wait\<close>); every test of the
  predicate is a step of its own (\<open>test_predicate\<close> and \<open>wait\<close> below), after
  which the thread has returned from the method or is blocked on the gate, with
  \<^verbatim>\<open>internal_mutex_\<close> released either way.
\<close>

definition begin_wait :: "nat \<Rightarrow> waiting \<Rightarrow> upgrade_mutex \<Rightarrow> upgrade_mutex" where
  "begin_wait t w m = m\<lparr>threads := (threads m)[t := Testing w]\<rparr>"

definition lock :: "nat \<Rightarrow> upgrade_mutex \<Rightarrow> upgrade_mutex" where
  "lock t m = begin_wait t in_lock (m\<lparr>internal_mutex := Some t\<rparr>)"

definition unlock :: "chooser \<Rightarrow> nat \<Rightarrow> upgrade_mutex \<Rightarrow> upgrade_mutex" where
  "unlock pick t m =
     (let (old_state, cell) = fetch_sub (state m) WRITE_LOCKED_FLAG;
          m = m\<lparr>state := cell, unique_holder := None\<rparr>;
          m = notify_one pick gate2 m
      in notify_all gate1 m)"

definition lock_shared :: "nat \<Rightarrow> upgrade_mutex \<Rightarrow> upgrade_mutex" where
  "lock_shared t m = begin_wait t in_lock_shared (m\<lparr>internal_mutex := Some t\<rparr>)"

definition unlock_shared :: "chooser \<Rightarrow> nat \<Rightarrow> upgrade_mutex \<Rightarrow> upgrade_mutex" where
  "unlock_shared pick t m =
     (let (old_state, cell) = fetch_sub (state m) ONE_READER;
          m = m\<lparr>state := cell, shared_holders := remove1 t (shared_holders m)\<rparr>
      in if old_state AND READER_COUNT_MASK = ONE_READER \<and> old_state AND UPGRADE_LOCKED_FLAG = 0
         then notify_one pick gate2 m
         else m)"

definition lock_upgrade :: "nat \<Rightarrow> upgrade_mutex \<Rightarrow> upgrade_mutex" where
  "lock_upgrade t m = begin_wait t in_lock_upgrade (m\<lparr>internal_mutex := Some t\<rparr>)"

definition unlock_upgrade :: "chooser \<Rightarrow> nat \<Rightarrow> upgrade_mutex \<Rightarrow> upgrade_mutex" where
  "unlock_upgrade pick t m =
     (let (old_state, cell) = fetch_sub (state m) UPGRADE_LOCKED_FLAG;
          m = m\<lparr>state := cell, upgrade_holder := None\<rparr>;
          m = (if old_state AND READER_COUNT_MASK = 0 then notify_one pick gate2 m else m)
      in notify_all gate1 m)"

definition upgrade_to_unique :: "nat \<Rightarrow> upgrade_mutex \<Rightarrow> upgrade_mutex" where
  "upgrade_to_unique t m =
     (let m = m\<lparr>internal_mutex := Some t\<rparr>;
          m = m\<lparr>state := snd (fetch_or (state m) UPGRADE_PENDING_FLAG)\<rparr>
      in begin_wait t in_upgrade_to_unique m)"

definition unique_to_upgrade :: "nat \<Rightarrow> upgrade_mutex \<Rightarrow> upgrade_mutex" where
  "unique_to_upgrade t m =
     (let m = m\<lparr>state := UPGRADE_LOCKED_FLAG, unique_holder := None, upgrade_holder := Some t\<rparr>
      in notify_all gate1 m)"

definition unique_to_shared :: "nat \<Rightarrow> upgrade_mutex \<Rightarrow> upgrade_mutex" where
  "unique_to_shared t m =
     (let m = m\<lparr>state := ONE_READER, unique_holder := None,
                 shared_holders := t # shared_holders m\<rparr>
      in notify_all gate1 m)"

definition scoped_upgrade_entry :: "nat \<Rightarrow> upgrade_mutex \<Rightarrow> upgrade_mutex" where
  "scoped_upgrade_entry t m = upgrade_to_unique t m"

definition scoped_upgrade_exit :: "nat \<Rightarrow> upgrade_mutex \<Rightarrow> upgrade_mutex" where
  "scoped_upgrade_exit t m = unique_to_upgrade t m"

text \<open>
  One test of the wait predicate by thread \<open>t\<close>. The three acquiring lambdas load the
  word into \<^verbatim>\<open>current_state\<close> and later compare-exchange the cell against it; the
  releases and the two downgrades take no \<^verbatim>\<open>internal_mutex_\<close>, so they can change the
  cell in between, and the compare-exchange then fails. \<open>run_predicate\<close> therefore
  takes the loaded value and the cell at the compare-exchange separately. The lambda of
  \<^verbatim>\<open>upgrade_to_unique\<close> accesses the word once, so it reads the cell itself. When the
  predicate holds the method finishes: nothing more for the three acquisitions, the
  store of \<^verbatim>\<open>WRITE_LOCKED_FLAG\<close> for \<^verbatim>\<open>upgrade_to_unique\<close>; the thread then holds the
  mutex in the new mode. When it does not hold the thread blocks on its gate, whatever
  the reason. \<open>wait\<close> is the test in which nothing happens between the load and the
  compare-exchange.
\<close>

fun run_predicate :: "waiting \<Rightarrow> uint32_t \<Rightarrow> uint32_t \<Rightarrow> bool \<times> uint32_t" where
  "run_predicate in_lock current_state cell = lock_predicate current_state cell"
| "run_predicate in_lock_shared current_state cell = lock_shared_predicate current_state cell"
| "run_predicate in_lock_upgrade current_state cell = lock_upgrade_predicate current_state cell"
| "run_predicate in_upgrade_to_unique current_state cell =
     (upgrade_to_unique_predicate cell, cell)"

fun after_wait :: "waiting \<Rightarrow> nat \<Rightarrow> upgrade_mutex \<Rightarrow> upgrade_mutex" where
  "after_wait in_lock t m = m\<lparr>unique_holder := Some t\<rparr>"
| "after_wait in_lock_shared t m = m\<lparr>shared_holders := t # shared_holders m\<rparr>"
| "after_wait in_lock_upgrade t m = m\<lparr>upgrade_holder := Some t\<rparr>"
| "after_wait in_upgrade_to_unique t m =
     m\<lparr>state := WRITE_LOCKED_FLAG, upgrade_holder := None, unique_holder := Some t\<rparr>"

definition test_predicate ::
  "nat \<Rightarrow> waiting \<Rightarrow> uint32_t \<Rightarrow> upgrade_mutex \<Rightarrow> upgrade_mutex" where
  "test_predicate t w current_state m =
     (let (ok, cell) = run_predicate w current_state (state m)
      in if ok
         then after_wait w t
                (m\<lparr>state := cell, internal_mutex := None, threads := (threads m)[t := Idle]\<rparr>)
         else m\<lparr>state := cell, internal_mutex := None, threads := (threads m)[t := Parked w]\<rparr>)"

definition wait :: "nat \<Rightarrow> waiting \<Rightarrow> upgrade_mutex \<Rightarrow> upgrade_mutex" where
  "wait t w m = test_predicate t w (state m) m"

section \<open>Threads calling the mutex\<close>

datatype op =
  Lock | Unlock | LockShared | UnlockShared | LockUpgrade | UnlockUpgrade
  | UpgradeToUnique | UniqueToUpgrade | UniqueToShared
  | ScopedUpgradeEntry | ScopedUpgradeExit

text \<open>
  What the caller must hold: a release needs the mode it releases, a transition the mode
  it starts from. An acquisition needs nothing.
\<close>

fun holds_for :: "op \<Rightarrow> nat \<Rightarrow> upgrade_mutex \<Rightarrow> bool" where
  "holds_for Lock t m = True"
| "holds_for Unlock t m = (unique_holder m = Some t)"
| "holds_for LockShared t m = True"
| "holds_for UnlockShared t m = (t \<in> set (shared_holders m))"
| "holds_for LockUpgrade t m = True"
| "holds_for UnlockUpgrade t m = (upgrade_holder m = Some t)"
| "holds_for UpgradeToUnique t m = (upgrade_holder m = Some t)"
| "holds_for UniqueToUpgrade t m = (unique_holder m = Some t)"
| "holds_for UniqueToShared t m = (unique_holder m = Some t)"
| "holds_for ScopedUpgradeEntry t m = (upgrade_holder m = Some t)"
| "holds_for ScopedUpgradeExit t m = (unique_holder m = Some t)"

fun takes_internal_mutex :: "op \<Rightarrow> bool" where
  "takes_internal_mutex Lock = True"
| "takes_internal_mutex LockShared = True"
| "takes_internal_mutex LockUpgrade = True"
| "takes_internal_mutex UpgradeToUnique = True"
| "takes_internal_mutex ScopedUpgradeEntry = True"
| "takes_internal_mutex Unlock = False"
| "takes_internal_mutex UnlockShared = False"
| "takes_internal_mutex UnlockUpgrade = False"
| "takes_internal_mutex UniqueToUpgrade = False"
| "takes_internal_mutex UniqueToShared = False"
| "takes_internal_mutex ScopedUpgradeExit = False"

fun perform :: "chooser \<Rightarrow> op \<Rightarrow> nat \<Rightarrow> upgrade_mutex \<Rightarrow> upgrade_mutex" where
  "perform pick Lock t m = lock t m"
| "perform pick Unlock t m = unlock pick t m"
| "perform pick LockShared t m = lock_shared t m"
| "perform pick UnlockShared t m = unlock_shared pick t m"
| "perform pick LockUpgrade t m = lock_upgrade t m"
| "perform pick UnlockUpgrade t m = unlock_upgrade pick t m"
| "perform pick UpgradeToUnique t m = upgrade_to_unique t m"
| "perform pick UniqueToUpgrade t m = unique_to_upgrade t m"
| "perform pick UniqueToShared t m = unique_to_shared t m"
| "perform pick ScopedUpgradeEntry t m = scoped_upgrade_entry t m"
| "perform pick ScopedUpgradeExit t m = scoped_upgrade_exit t m"

text \<open>
  The events of a run. \<open>Call t op\<close>: the idle thread \<open>t\<close>, holding what \<open>op\<close> needs,
  calls \<open>op\<close> (a blocking method first takes \<^verbatim>\<open>internal_mutex_\<close>, which must be
  free). \<open>Load t\<close>: thread \<open>t\<close>, about to test the predicate of an acquisition and
  owning or able to take \<^verbatim>\<open>internal_mutex_\<close>, loads the word into
  \<^verbatim>\<open>current_state\<close> and stops before the rest of the lambda, so that other threads'
  calls can come in between. \<open>Step t\<close>: thread \<open>t\<close>, inside a wait and owning or able
  to take \<^verbatim>\<open>internal_mutex_\<close>, runs its predicate to the end: all of it when it had not
  started, the rest of it, with the value it loaded and the cell as it is now, after a
  \<open>Load t\<close>. \<open>Spurious t\<close>: the blocked thread \<open>t\<close> wakes without a notification, as C++
  allows. An event that is not possible in the state gives \<open>None\<close>.
\<close>

datatype event = Call nat op | Load nat | Step nat | Spurious nat

fun step :: "chooser \<Rightarrow> event \<Rightarrow> upgrade_mutex \<Rightarrow> upgrade_mutex option" where
  "step pick (Call t op) m =
     (if t < length (threads m) \<and> threads m ! t = Idle \<and> holds_for op t m
         \<and> (if takes_internal_mutex op then internal_mutex m = None else True)
      then Some (perform pick op t m)
      else None)"
| "step pick (Load t) m =
     (if t < length (threads m) \<and> (internal_mutex m = None \<or> internal_mutex m = Some t)
      then (case threads m ! t of
              Testing w \<Rightarrow>
                (if w = in_upgrade_to_unique then None
                 else Some (m\<lparr>internal_mutex := Some t,
                              threads := (threads m)[t := Loaded w (state m)]\<rparr>))
            | Idle \<Rightarrow> None
            | Loaded w current_state \<Rightarrow> None
            | Parked w \<Rightarrow> None)
      else None)"
| "step pick (Step t) m =
     (if t < length (threads m) \<and> (internal_mutex m = None \<or> internal_mutex m = Some t)
      then (case threads m ! t of
              Testing w \<Rightarrow> Some (wait t w m)
            | Loaded w current_state \<Rightarrow> Some (test_predicate t w current_state m)
            | Idle \<Rightarrow> None
            | Parked w \<Rightarrow> None)
      else None)"
| "step pick (Spurious t) m =
     (if t < length (threads m)
      then (case threads m ! t of
              Parked w \<Rightarrow> Some (m\<lparr>threads := (threads m)[t := Testing w]\<rparr>)
            | Idle \<Rightarrow> None
            | Testing w \<Rightarrow> None
            | Loaded w current_state \<Rightarrow> None)
      else None)"

fun run :: "chooser \<Rightarrow> event list \<Rightarrow> upgrade_mutex \<Rightarrow> upgrade_mutex option" where
  "run pick [] m = Some m"
| "run pick (e # es) m =
     (case step pick e m of
        None \<Rightarrow> None
      | Some m' \<Rightarrow> run pick es m')"

text \<open>
  The largest number of shared holds outstanding at any moment of a run, and the runs in
  which no thread wakes spuriously.
\<close>

fun most_shared :: "chooser \<Rightarrow> event list \<Rightarrow> upgrade_mutex \<Rightarrow> nat" where
  "most_shared pick [] m = length (shared_holders m)"
| "most_shared pick (e # es) m =
     (case step pick e m of
        None \<Rightarrow> length (shared_holders m)
      | Some m' \<Rightarrow> max (length (shared_holders m)) (most_shared pick es m'))"

fun spurious :: "event \<Rightarrow> bool" where
  "spurious (Spurious t) = True"
| "spurious (Call t op) = False"
| "spurious (Step t) = False"
| "spurious (Load t) = False"

section \<open>The invariants of the state word\<close>

definition P1 :: "uint32_t \<Rightarrow> bool" where
  "P1 s = (WRITER s \<longrightarrow> \<not> UPGRADER s \<and> \<not> PENDING s \<and> READERS s = 0)"

definition P2 :: "uint32_t \<Rightarrow> bool" where
  "P2 s = (PENDING s \<longrightarrow> UPGRADER s)"

section \<open>Two situations\<close>

text \<open>
  Thread 0 takes the upgradeable lock, thread 1 a shared lock, thread 0 starts its
  upgrade and blocks behind the reader, thread 2 asks for a shared lock and blocks
  behind the pending upgrade, and thread 1 releases its shared lock.
\<close>

definition drain_scenario :: "event list" where
  "drain_scenario =
     [Call 0 LockUpgrade, Step 0, Call 1 LockShared, Step 1,
      Call 0 UpgradeToUnique, Step 0, Call 2 LockShared, Step 2,
      Call 1 UnlockShared]"

text \<open>
  The mutex while thread 0 waits in \<^verbatim>\<open>upgrade_to_unique\<close> for the one shared holder,
  thread 1, to leave.
\<close>

definition draining :: upgrade_mutex where
  "draining = \<lparr>state = UPGRADE_LOCKED_FLAG OR UPGRADE_PENDING_FLAG OR ONE_READER,
     internal_mutex = None, threads = [Parked in_upgrade_to_unique, Idle], signals = [],
     shared_holders = [1], upgrade_holder = Some 0, unique_holder = None\<rparr>"

section \<open>Lock guards\<close>

text \<open>
  \<^verbatim>\<open>lock_guard_base<Mutex>\<close> has one member, the pointer \<^verbatim>\<open>p_mutex_\<close>; a mutex is
  named by its address and \<^verbatim>\<open>nullptr\<close> is \<open>None\<close>. The three guards
  \<^verbatim>\<open>unique_lock\<close>, \<^verbatim>\<open>shared_lock\<close> and \<^verbatim>\<open>upgrade_lock\<close> add no member. A
  constructor or destructor that calls the mutex returns the calls it makes, in order.
\<close>

record lock_guard_base =
  p_mutex :: "nat option"

type_synonym mutex_calls = "(nat \<times> op) list"

definition owns_lock :: "lock_guard_base \<Rightarrow> bool" where
  "owns_lock g = (p_mutex g \<noteq> None)"

definition release :: "lock_guard_base \<Rightarrow> lock_guard_base" where
  "release g = g\<lparr>p_mutex := None\<rparr>"

definition mutex :: "lock_guard_base \<Rightarrow> nat option" where
  "mutex g = p_mutex g"

definition default_constructed :: lock_guard_base where
  "default_constructed = \<lparr>p_mutex = None\<rparr>"

definition constructed_on :: "nat \<Rightarrow> lock_guard_base" where
  "constructed_on m = \<lparr>p_mutex = Some m\<rparr>"

text \<open>
  The move constructor gives the new guard and the guard moved from. Move assignment
  compares the addresses of the two guards, so it works on a store of guards.
\<close>

definition move_constructed :: "lock_guard_base \<Rightarrow> lock_guard_base \<times> lock_guard_base" where
  "move_constructed other = (\<lparr>p_mutex = p_mutex other\<rparr>, other\<lparr>p_mutex := None\<rparr>)"

definition move_assigned ::
  "nat \<Rightarrow> nat \<Rightarrow> (nat \<Rightarrow> lock_guard_base) \<Rightarrow> (nat \<Rightarrow> lock_guard_base)" where
  "move_assigned this other guards =
     (if this \<noteq> other
      then (let guards = guards(this := (guards this)\<lparr>p_mutex := p_mutex (guards other)\<rparr>)
            in guards(other := (guards other)\<lparr>p_mutex := None\<rparr>))
      else guards)"

definition unique_lock :: "nat \<Rightarrow> lock_guard_base \<times> mutex_calls" where
  "unique_lock m = (constructed_on m, [(m, Lock)])"

definition unique_lock_destroyed :: "lock_guard_base \<Rightarrow> mutex_calls" where
  "unique_lock_destroyed g = (case p_mutex g of None \<Rightarrow> [] | Some m \<Rightarrow> [(m, Unlock)])"

definition shared_lock :: "nat \<Rightarrow> lock_guard_base \<times> mutex_calls" where
  "shared_lock m = (constructed_on m, [(m, LockShared)])"

definition shared_lock_destroyed :: "lock_guard_base \<Rightarrow> mutex_calls" where
  "shared_lock_destroyed g = (case p_mutex g of None \<Rightarrow> [] | Some m \<Rightarrow> [(m, UnlockShared)])"

definition upgrade_lock :: "nat \<Rightarrow> lock_guard_base \<times> mutex_calls" where
  "upgrade_lock m = (constructed_on m, [(m, LockUpgrade)])"

definition upgrade_lock_destroyed :: "lock_guard_base \<Rightarrow> mutex_calls" where
  "upgrade_lock_destroyed g = (case p_mutex g of None \<Rightarrow> [] | Some m \<Rightarrow> [(m, UnlockUpgrade)])"

text \<open>
  The three transition constructors move the pointer out of the other guard and then
  call the transition on the mutex, if there is one.
\<close>

definition unique_lock_from_upgrade ::
  "lock_guard_base \<Rightarrow> lock_guard_base \<times> lock_guard_base \<times> mutex_calls" where
  "unique_lock_from_upgrade other =
     (let (g, other) = move_constructed other
      in (g, other, case p_mutex g of None \<Rightarrow> [] | Some m \<Rightarrow> [(m, UpgradeToUnique)]))"

definition upgrade_lock_from_unique ::
  "lock_guard_base \<Rightarrow> lock_guard_base \<times> lock_guard_base \<times> mutex_calls" where
  "upgrade_lock_from_unique other =
     (let (g, other) = move_constructed other
      in (g, other, case p_mutex g of None \<Rightarrow> [] | Some m \<Rightarrow> [(m, UniqueToUpgrade)]))"

definition shared_lock_from_unique ::
  "lock_guard_base \<Rightarrow> lock_guard_base \<times> lock_guard_base \<times> mutex_calls" where
  "shared_lock_from_unique other =
     (let (g, other) = move_constructed other
      in (g, other, case p_mutex g of None \<Rightarrow> [] | Some m \<Rightarrow> [(m, UniqueToShared)]))"

text \<open>
  \<^verbatim>\<open>scoped_upgrade\<close> is a class of its own with its own pointer, copied from the
  \<^verbatim>\<open>upgrade_lock\<close> it is given.
\<close>

record scoped_upgrade =
  p_mutex_su :: "nat option"

definition scoped_upgrade :: "lock_guard_base \<Rightarrow> scoped_upgrade \<times> mutex_calls" where
  "scoped_upgrade lock_arg =
     (let p = mutex lock_arg
      in (\<lparr>p_mutex_su = p\<rparr>, case p of None \<Rightarrow> [] | Some m \<Rightarrow> [(m, ScopedUpgradeEntry)]))"

definition scoped_upgrade_destroyed :: "scoped_upgrade \<Rightarrow> mutex_calls" where
  "scoped_upgrade_destroyed su =
     (case p_mutex_su su of None \<Rightarrow> [] | Some m \<Rightarrow> [(m, ScopedUpgradeExit)])"

section \<open>Who holds what\<close>

text \<open>
  A thread is upgrading while it is inside the wait of \<^verbatim>\<open>upgrade_to_unique\<close>. A mutex
  object is consistent when its state word says what its holders are: the writer bit
  stands for the exclusive holder, the upgrader bit for the upgradeable holder, the
  pending bit for an upgradeable holder that is upgrading, the reader field for the
  number of shared holds; only the upgradeable holder upgrades, and an exclusive holder
  is alone.
\<close>

fun upgrading :: "status \<Rightarrow> bool" where
  "upgrading Idle = False"
| "upgrading (Testing w) = (w = in_upgrade_to_unique)"
| "upgrading (Loaded w current_state) = (w = in_upgrade_to_unique)"
| "upgrading (Parked w) = (w = in_upgrade_to_unique)"

definition consistent :: "upgrade_mutex \<Rightarrow> bool" where
  "consistent m \<longleftrightarrow>
     (WRITER (state m) \<longleftrightarrow> unique_holder m \<noteq> None)
     \<and> (UPGRADER (state m) \<longleftrightarrow> upgrade_holder m \<noteq> None)
     \<and> (PENDING (state m) \<longleftrightarrow>
          (\<exists>t. upgrade_holder m = Some t \<and> t < length (threads m) \<and> upgrading (threads m ! t)))
     \<and> READERS (state m) = length (shared_holders m)
     \<and> (\<forall>t. t < length (threads m) \<and> upgrading (threads m ! t) \<longrightarrow> upgrade_holder m = Some t)
     \<and> (unique_holder m \<noteq> None \<longrightarrow> upgrade_holder m = None \<and> shared_holders m = [])"

text \<open>
  The mutex is stuck when thread 0, the upgradeable holder, is blocked in
  \<^verbatim>\<open>upgrade_to_unique\<close> with the pending bit set, no reader is left, and nobody has
  been notified.
\<close>

definition stuck :: "upgrade_mutex \<Rightarrow> bool" where
  "stuck m \<longleftrightarrow>
     state m = UPGRADE_LOCKED_FLAG OR UPGRADE_PENDING_FLAG
     \<and> 0 < length (threads m) \<and> threads m ! 0 = Parked in_upgrade_to_unique
     \<and> (\<forall>t. t < length (threads m) \<and> upgrading (threads m ! t) \<longrightarrow> t = 0)
     \<and> shared_holders m = [] \<and> upgrade_holder m = Some 0 \<and> unique_holder m = None
     \<and> signals m = []"

text \<open>The mutex of one thread that holds \<open>k\<close> shared locks and nothing else.\<close>

definition readers_only :: "nat \<Rightarrow> upgrade_mutex" where
  "readers_only k = \<lparr>state = of_nat k, internal_mutex = None, threads = [Idle], signals = [],
     shared_holders = replicate k 0, upgrade_holder = None, unique_holder = None\<rparr>"

section \<open>Reading the fields of a word\<close>

lemma flag_pow:
  "WRITE_LOCKED_FLAG = 2 ^ 31" "UPGRADE_LOCKED_FLAG = 2 ^ 30"
  "UPGRADE_PENDING_FLAG = 2 ^ 29" "READER_COUNT_MASK = mask 29"
  by (simp_all add: WRITE_LOCKED_FLAG_def UPGRADE_LOCKED_FLAG_def UPGRADE_PENDING_FLAG_def
      READER_COUNT_MASK_def mask_eq_exp_minus_1)

lemma WRITER_bit: "WRITER s \<longleftrightarrow> bit s 31"
  unfolding WRITER_def flag_pow by (simp only: and_exp_eq_0_iff_not_bit not_not)

lemma UPGRADER_bit: "UPGRADER s \<longleftrightarrow> bit s 30"
  unfolding UPGRADER_def flag_pow by (simp only: and_exp_eq_0_iff_not_bit not_not)

lemma PENDING_bit: "PENDING s \<longleftrightarrow> bit s 29"
  unfolding PENDING_def flag_pow by (simp only: and_exp_eq_0_iff_not_bit not_not)

lemma READERS_take_bit: "READERS s = unat (take_bit 29 s)"
  unfolding READERS_def flag_pow by (simp only: take_bit_eq_mask)

lemma READERS_mod: "READERS s = unat s mod 2 ^ 29"
  unfolding READERS_take_bit unsigned_take_bit_eq by (simp only: take_bit_eq_mod)

lemma nat_div_Suc: "x mod c \<noteq> c - 1 \<Longrightarrow> Suc x div c = x div (c::nat)"
  by (metis One_nat_def Zero_not_Suc diff_Suc_1' div_Suc mod_Suc)

lemma nat_mod_Suc: "x mod c \<noteq> c - 1 \<Longrightarrow> Suc x mod c = Suc (x mod (c::nat))"
  by (metis diff_Suc_1 mod_Suc)

lemma nat_pred_Suc:
  assumes "x mod c \<noteq> 0" "0 < (c::nat)"
  obtains y where "x = Suc y" "y mod c \<noteq> c - 1"
proof -
  from assms obtain y where x: "x = Suc y" by (cases x) auto
  from assms have "y mod c \<noteq> c - 1" unfolding x by (auto simp: mod_Suc)
  with x that show ?thesis by blast
qed

lemma nat_div_pred: "x mod c \<noteq> 0 \<Longrightarrow> 0 < c \<Longrightarrow> (x - 1) div c = x div (c::nat)"
  by (erule (1) nat_pred_Suc) (simp add: nat_div_Suc)

lemma nat_mod_pred: "x mod c \<noteq> 0 \<Longrightarrow> 0 < c \<Longrightarrow> (x - 1) mod c = x mod (c::nat) - 1"
  by (erule (1) nat_pred_Suc) (simp add: nat_mod_Suc)

text \<open>The three flags of two words agree when the words agree above bit 28.\<close>

lemma high_bits:
  assumes "unat s div 2 ^ 29 = unat t div 2 ^ 29"
  shows "WRITER s = WRITER t \<and> UPGRADER s = UPGRADER t \<and> PENDING s = PENDING t"
proof -
  have "unat (drop_bit 29 s) = unat (drop_bit 29 t)"
    unfolding unat_drop_bit_eq using assms by (simp only: drop_bit_eq_div)
  then have d: "drop_bit 29 s = drop_bit 29 t"
    by (simp only: word_unat_eq_iff)
  have b: "bit s (29 + k) = bit (drop_bit 29 s) k" for k
    by (simp only: bit_drop_bit_eq comp_def)
  have c: "bit t (29 + k) = bit (drop_bit 29 t) k" for k
    by (simp only: bit_drop_bit_eq comp_def)
  have "bit s (29 + k) = bit t (29 + k)" for k
    unfolding b c d ..
  from this [of 0] this [of 1] this [of 2] show ?thesis
    by (simp add: WRITER_bit UPGRADER_bit PENDING_bit)
qed

lemmas word_defs = WRITE_LOCKED_FLAG_def UPGRADE_LOCKED_FLAG_def UPGRADE_PENDING_FLAG_def
  READER_COUNT_MASK_def ONE_READER_def

lemmas field_defs = WRITER_def UPGRADER_def PENDING_def READERS_def

lemmas atomic_defs = fetch_sub_def fetch_or_def compare_exchange_strong_def
  lock_predicate_def lock_shared_predicate_def lock_upgrade_predicate_def
  upgrade_to_unique_predicate_def

lemmas method_defs = notify_all_def notify_one_def begin_wait_def lock_def unlock_def
  lock_shared_def unlock_shared_def lock_upgrade_def unlock_upgrade_def upgrade_to_unique_def
  unique_to_upgrade_def unique_to_shared_def scoped_upgrade_entry_def scoped_upgrade_exit_def
  wait_def test_predicate_def

lemma fields_const:
  "\<not> WRITER 0 \<and> \<not> UPGRADER 0 \<and> \<not> PENDING 0 \<and> READERS 0 = 0"
  "WRITER WRITE_LOCKED_FLAG \<and> \<not> UPGRADER WRITE_LOCKED_FLAG \<and> \<not> PENDING WRITE_LOCKED_FLAG
     \<and> READERS WRITE_LOCKED_FLAG = 0"
  "\<not> WRITER UPGRADE_LOCKED_FLAG \<and> UPGRADER UPGRADE_LOCKED_FLAG \<and> \<not> PENDING UPGRADE_LOCKED_FLAG
     \<and> READERS UPGRADE_LOCKED_FLAG = 0"
  "\<not> WRITER ONE_READER \<and> \<not> UPGRADER ONE_READER \<and> \<not> PENDING ONE_READER \<and> READERS ONE_READER = 1"
  by (simp_all add: field_defs word_defs)

lemma zero_iff_fields:
  "s = 0 \<longleftrightarrow> \<not> WRITER s \<and> \<not> UPGRADER s \<and> \<not> PENDING s \<and> READERS s = 0"
proof
  assume "s = 0"
  then show "\<not> WRITER s \<and> \<not> UPGRADER s \<and> \<not> PENDING s \<and> READERS s = 0"
    by (simp add: fields_const)
next
  assume h: "\<not> WRITER s \<and> \<not> UPGRADER s \<and> \<not> PENDING s \<and> READERS s = 0"
  then have low: "take_bit 29 s = 0"
    by (simp add: READERS_take_bit unat_eq_0)
  show "s = 0"
  proof (rule bit_eqI)
    fix n :: nat
    consider "n < 29" | "n = 29" | "n = 30" | "n = 31" | "32 \<le> n"
      by arith
    then show "bit s n \<longleftrightarrow> bit (0 :: uint32_t) n"
    proof cases
      case 1
      then have "bit s n = bit (take_bit 29 s) n"
        by (simp add: bit_take_bit_iff)
      then show ?thesis by (simp add: low)
    next
      case 2 with h show ?thesis by (simp add: PENDING_bit)
    next
      case 3 with h show ?thesis by (simp add: UPGRADER_bit)
    next
      case 4 with h show ?thesis by (simp add: WRITER_bit)
    next
      case 5
      then have "\<not> bit s n"
        using bit_imp_le_length [of s n] by auto
      then show ?thesis by simp
    qed
  qed
qed

lemma readers_eq_one: "s AND READER_COUNT_MASK = ONE_READER \<longleftrightarrow> READERS s = 1"
  by (simp add: READERS_def ONE_READER_def word_unat_eq_iff)

lemma readers_eq_zero: "s AND READER_COUNT_MASK = 0 \<longleftrightarrow> READERS s = 0"
  by (simp add: READERS_def unat_eq_0)

text \<open>
  Adding and subtracting \<^verbatim>\<open>ONE_READER\<close> counts modulo \<open>2 ^ 29\<close> in the reader field,
  whatever the word.
\<close>

lemma READERS_add_ONE_READER: "READERS (s + ONE_READER) = (READERS s + 1) mod 2 ^ 29"
proof -
  have "unat (s + 1) mod 2 ^ 29 = (unat s + 1) mod 2 ^ 32 mod 2 ^ 29"
    by (simp add: unat_word_ariths)
  also have "\<dots> = (unat s + 1) mod 2 ^ 29"
    by (rule mod_mod_cancel) simp
  also have "\<dots> = (unat s mod 2 ^ 29 + 1) mod 2 ^ 29"
    by (simp only: mod_add_left_eq)
  finally show ?thesis
    by (simp only: READERS_mod ONE_READER_def)
qed

lemma READERS_sub_ONE_READER:
  "READERS (s - ONE_READER) = (READERS s + (2 ^ 29 - 1)) mod 2 ^ 29"
proof -
  have "s - 1 = s + (- 1)"
    by simp
  then have "unat (s - 1) mod 2 ^ 29 = (unat s + unat (- 1 :: uint32_t)) mod 2 ^ 32 mod 2 ^ 29"
    by (simp only: unat_word_ariths) simp
  also have "\<dots> = (unat s + unat (- 1 :: uint32_t)) mod 2 ^ 29"
    by (rule mod_mod_cancel) simp
  also have "\<dots> = (unat s mod 2 ^ 29 + unat (- 1 :: uint32_t) mod 2 ^ 29) mod 2 ^ 29"
    by (simp only: mod_add_eq)
  also have "unat (- 1 :: uint32_t) mod 2 ^ 29 = 2 ^ 29 - 1"
    by (simp add: unsigned_minus_1_eq_mask mask_eq_exp_minus_1)
  finally show ?thesis
    by (simp only: READERS_mod ONE_READER_def)
qed


text \<open>The effect of each arithmetic change of the word on the four fields.\<close>

lemma fields_or_UPGRADE_PENDING_FLAG:
  "WRITER (s OR UPGRADE_PENDING_FLAG) = WRITER s \<and> UPGRADER (s OR UPGRADE_PENDING_FLAG) = UPGRADER s
   \<and> PENDING (s OR UPGRADE_PENDING_FLAG) \<and> READERS (s OR UPGRADE_PENDING_FLAG) = READERS s"
proof -
  have "take_bit 29 (s OR 2 ^ 29) = take_bit 29 s"
    by (rule bit_eqI) (auto simp add: bit_simps)
  then show ?thesis
    unfolding WRITER_bit UPGRADER_bit PENDING_bit READERS_take_bit flag_pow
    by (simp add: bit_simps)
qed

lemma fields_or_UPGRADE_LOCKED_FLAG:
  "WRITER (s OR UPGRADE_LOCKED_FLAG) = WRITER s \<and> UPGRADER (s OR UPGRADE_LOCKED_FLAG)
   \<and> PENDING (s OR UPGRADE_LOCKED_FLAG) = PENDING s \<and> READERS (s OR UPGRADE_LOCKED_FLAG) = READERS s"
proof -
  have "take_bit 29 (s OR 2 ^ 30) = take_bit 29 s"
    by (rule bit_eqI) (auto simp add: bit_simps)
  then show ?thesis
    unfolding WRITER_bit UPGRADER_bit PENDING_bit READERS_take_bit flag_pow
    by (simp add: bit_simps)
qed

lemma take_bit_unset_high:
  "29 \<le> k \<Longrightarrow> take_bit 29 (unset_bit k s) = take_bit 29 (s :: uint32_t)"
  by (rule bit_eqI) (auto simp add: bit_simps)

lemma sub_WRITE_LOCKED_FLAG: "WRITER s \<Longrightarrow> s - WRITE_LOCKED_FLAG = unset_bit 31 s"
  unfolding WRITER_bit flag_pow by (simp add: unset_bit_eq)

lemma sub_UPGRADE_LOCKED_FLAG: "UPGRADER s \<Longrightarrow> s - UPGRADE_LOCKED_FLAG = unset_bit 30 s"
  unfolding UPGRADER_bit flag_pow by (simp add: unset_bit_eq)

lemma fields_sub_WRITE_LOCKED_FLAG:
  assumes "WRITER s"
  shows "\<not> WRITER (s - WRITE_LOCKED_FLAG) \<and> UPGRADER (s - WRITE_LOCKED_FLAG) = UPGRADER s
    \<and> PENDING (s - WRITE_LOCKED_FLAG) = PENDING s \<and> READERS (s - WRITE_LOCKED_FLAG) = READERS s"
  unfolding sub_WRITE_LOCKED_FLAG [OF assms] WRITER_bit UPGRADER_bit PENDING_bit READERS_take_bit
  by (simp add: bit_unset_bit_iff take_bit_unset_high)

lemma fields_sub_UPGRADE_LOCKED_FLAG:
  assumes "UPGRADER s"
  shows "WRITER (s - UPGRADE_LOCKED_FLAG) = WRITER s \<and> \<not> UPGRADER (s - UPGRADE_LOCKED_FLAG)
    \<and> PENDING (s - UPGRADE_LOCKED_FLAG) = PENDING s \<and> READERS (s - UPGRADE_LOCKED_FLAG) = READERS s"
  unfolding sub_UPGRADE_LOCKED_FLAG [OF assms] WRITER_bit UPGRADER_bit PENDING_bit READERS_take_bit
  by (simp add: bit_unset_bit_iff take_bit_unset_high)

lemma unat_add_ONE_READER:
  assumes "READERS s \<noteq> 2 ^ 29 - 1"
  shows "unat (s + ONE_READER) = Suc (unat s)"
proof -
  have "unat s \<noteq> 2 ^ 32 - 1"
    using assms unfolding READERS_mod by (rule contrapos_nn) simp
  moreover have "unat s < 2 ^ 32"
    using unsigned_less [of s, where ?'a = nat] by simp
  ultimately have "unat s + unat (1 :: uint32_t) < 2 ^ LENGTH(32)"
    by simp
  then show ?thesis
    unfolding ONE_READER_def by (simp only: unat_add_lem [THEN iffD1]) simp
qed

lemma unat_sub_ONE_READER:
  assumes "READERS s \<noteq> 0"
  shows "unat (s - ONE_READER) = unat s - 1"
proof -
  have "s \<noteq> 0"
    using assms unfolding READERS_mod by (rule contrapos_nn) simp
  then show ?thesis
    unfolding ONE_READER_def by (rule unat_minus_one)
qed

lemma fields_add_ONE_READER:
  assumes "READERS s \<noteq> 2 ^ 29 - 1"
  shows "WRITER (s + ONE_READER) = WRITER s \<and> UPGRADER (s + ONE_READER) = UPGRADER s
    \<and> PENDING (s + ONE_READER) = PENDING s \<and> READERS (s + ONE_READER) = READERS s + 1"
proof -
  note u = unat_add_ONE_READER [OF assms]
  have m: "unat s mod 2 ^ 29 \<noteq> 2 ^ 29 - 1"
    using assms unfolding READERS_mod .
  have "unat (s + ONE_READER) div 2 ^ 29 = unat s div 2 ^ 29"
    unfolding u using m by (rule nat_div_Suc)
  moreover have "READERS (s + ONE_READER) = READERS s + 1"
    unfolding READERS_mod u using nat_mod_Suc [OF m] by simp
  ultimately show ?thesis
    using high_bits by blast
qed

lemma fields_sub_ONE_READER:
  assumes "READERS s \<noteq> 0"
  shows "WRITER (s - ONE_READER) = WRITER s \<and> UPGRADER (s - ONE_READER) = UPGRADER s
    \<and> PENDING (s - ONE_READER) = PENDING s \<and> READERS (s - ONE_READER) = READERS s - 1"
proof -
  note u = unat_sub_ONE_READER [OF assms]
  have m: "unat s mod 2 ^ 29 \<noteq> 0"
    using assms unfolding READERS_mod .
  have "unat (s - ONE_READER) div 2 ^ 29 = unat s div 2 ^ 29"
    unfolding u using m by (rule nat_div_pred) simp
  moreover have "READERS (s - ONE_READER) = READERS s - 1"
    unfolding READERS_mod u using m by (rule nat_mod_pred) simp
  ultimately show ?thesis
    using high_bits by blast
qed

lemma state_unlock: "state (unlock pick t m) = state m - WRITE_LOCKED_FLAG"
  by (simp add: unlock_def fetch_sub_def notify_one_def notify_all_def Let_def)

lemma state_unlock_shared: "state (unlock_shared pick t m) = state m - ONE_READER"
  by (simp add: unlock_shared_def fetch_sub_def notify_one_def Let_def)

lemma state_unlock_upgrade: "state (unlock_upgrade pick t m) = state m - UPGRADE_LOCKED_FLAG"
  by (simp add: unlock_upgrade_def fetch_sub_def notify_one_def notify_all_def Let_def)

lemma lock_shared_predicate_eq:
  "lock_shared_predicate current_state cell =
     (if \<not> WRITER current_state \<and> \<not> PENDING current_state \<and> cell = current_state
      then (True, cell + ONE_READER) else (False, cell))"
  by (auto simp add: lock_shared_predicate_def compare_exchange_strong_def WRITER_def
      PENDING_def)

lemma lock_upgrade_predicate_eq:
  "lock_upgrade_predicate current_state cell =
     (if \<not> WRITER current_state \<and> \<not> UPGRADER current_state \<and> cell = current_state
      then (True, cell OR UPGRADE_LOCKED_FLAG) else (False, cell))"
  by (auto simp add: lock_upgrade_predicate_def compare_exchange_strong_def WRITER_def
      UPGRADER_def)

lemma lock_predicate_eq:
  "lock_predicate current_state cell =
     (if current_state = 0 \<and> cell = 0 then (True, WRITE_LOCKED_FLAG) else (False, cell))"
  by (auto simp add: lock_predicate_def compare_exchange_strong_def)

section \<open>What the methods do to the state word and to the gates\<close>

text \<open>
  Claim C1. For every state before it, \<^verbatim>\<open>unlock_shared\<close> subtracts one reader, and it
  should notify \<^verbatim>\<open>gate2_\<close> when the last reader leaves with no upgrader present, and
  also when the last reader leaves while an upgrader is there, so that an upgrader
  draining readers is woken. The code does the first and not the second: it notifies
  exactly when the word before had one reader and no upgrader. With thread 0 blocked in
  \<^verbatim>\<open>upgrade_to_unique\<close> behind the single reader thread 1 (\<open>draining\<close>), the release
  of thread 1 brings the readers to zero, notifies nobody and leaves thread 0 blocked.
\<close>

theorem unlock_shared_silent_while_upgrade_drains:
  "state (unlock_shared pick t m) = state m - ONE_READER
   \<and> READERS (state (unlock_shared pick t m)) = (READERS (state m) + (2 ^ 29 - 1)) mod 2 ^ 29
   \<and> signals (unlock_shared pick t m) =
       signals m @ (if READERS (state m) = 1 \<and> \<not> UPGRADER (state m)
                    then [notified_one gate2] else [])
   \<and> (READERS (state draining) = 1 \<and> UPGRADER (state draining) \<and> PENDING (state draining))
   \<and> READERS (state (unlock_shared pick 1 draining)) = 0
   \<and> signals (unlock_shared pick 1 draining) = []
   \<and> threads (unlock_shared pick 1 draining) = [Parked in_upgrade_to_unique, Idle]"
proof -
  have a: "state (unlock_shared pick t m) = state m - ONE_READER" for t m
    by (simp add: unlock_shared_def fetch_sub_def notify_one_def Let_def)
  have b: "signals (unlock_shared pick t m) =
       signals m @ (if READERS (state m) = 1 \<and> \<not> UPGRADER (state m)
                    then [notified_one gate2] else [])"
    for t m
    by (simp add: unlock_shared_def fetch_sub_def notify_one_def Let_def readers_eq_one
        UPGRADER_def)
  have c: "READERS (state draining) = 1 \<and> UPGRADER (state draining) \<and> PENDING (state draining)"
    by (simp add: draining_def field_defs word_defs)
  have d: "READERS (state (unlock_shared pick 1 draining)) = 0"
    unfolding a by (simp add: draining_def field_defs word_defs)
  have e: "signals (unlock_shared pick 1 draining) = []"
    using b [of 1 draining] c by (simp add: draining_def)
  have f: "threads (unlock_shared pick 1 draining) = [Parked in_upgrade_to_unique, Idle]"
    by (simp add: unlock_shared_def fetch_sub_def Let_def draining_def word_defs)
  from a b c d e f READERS_sub_ONE_READER [of "state m"] show ?thesis by simp
qed

text \<open>
  Claim C4. The predicate of \<^verbatim>\<open>lock\<close> succeeds only when the whole state word is
  zero, and then swaps in the word with only the writer bit set; on every other word,
  the one with only the upgrader bit among them, it returns false, the word stays as it
  is and the caller goes on waiting on \<^verbatim>\<open>gate2_\<close>. A word is zero exactly when its
  four fields are.
\<close>

theorem lock_waits_for_zero:
  "lock_predicate current_state cell =
     (if current_state = 0 \<and> cell = 0 then (True, WRITE_LOCKED_FLAG) else (False, cell))
   \<and> (fst (lock_predicate cell cell)
        \<longleftrightarrow> \<not> WRITER cell \<and> \<not> UPGRADER cell \<and> \<not> PENDING cell \<and> READERS cell = 0)
   \<and> (WRITER WRITE_LOCKED_FLAG \<and> \<not> UPGRADER WRITE_LOCKED_FLAG \<and> \<not> PENDING WRITE_LOCKED_FLAG
        \<and> READERS WRITE_LOCKED_FLAG = 0)
   \<and> lock_predicate UPGRADE_LOCKED_FLAG UPGRADE_LOCKED_FLAG = (False, UPGRADE_LOCKED_FLAG)
   \<and> wait t in_lock m =
       (if state m = 0
        then m\<lparr>state := WRITE_LOCKED_FLAG, internal_mutex := None,
               threads := (threads m)[t := Idle], unique_holder := Some t\<rparr>
        else m\<lparr>internal_mutex := None, threads := (threads m)[t := Parked in_lock]\<rparr>)
   \<and> gate_of in_lock = gate2"
proof -
  have a: "lock_predicate current_state cell =
     (if current_state = 0 \<and> cell = 0 then (True, WRITE_LOCKED_FLAG) else (False, cell))"
    for current_state cell
    by (auto simp add: lock_predicate_def compare_exchange_strong_def)
  have b: "fst (lock_predicate cell cell)
        \<longleftrightarrow> \<not> WRITER cell \<and> \<not> UPGRADER cell \<and> \<not> PENDING cell \<and> READERS cell = 0"
    unfolding a using zero_iff_fields [of cell] by simp
  have c: "lock_predicate UPGRADE_LOCKED_FLAG UPGRADE_LOCKED_FLAG = (False, UPGRADE_LOCKED_FLAG)"
    unfolding a by (simp add: word_defs)
  have d: "wait t in_lock m =
       (if state m = 0
        then m\<lparr>state := WRITE_LOCKED_FLAG, internal_mutex := None,
               threads := (threads m)[t := Idle], unique_holder := Some t\<rparr>
        else m\<lparr>internal_mutex := None, threads := (threads m)[t := Parked in_lock]\<rparr>)"
    by (simp add: wait_def test_predicate_def a)
  from a b c d fields_const(2) show ?thesis by simp
qed




text \<open>
  Claim C6. \<^verbatim>\<open>upgrade_to_unique\<close> first ORs the pending bit into the state word, then
  waits on \<^verbatim>\<open>gate2_\<close> until the reader field is zero, and then stores the word with
  only the writer bit set, which clears the upgrader and pending bits in the same store.
  The log of notifications is the same after each of these steps: it notifies no gate.
\<close>

theorem upgrade_to_unique_steps:
  "state (upgrade_to_unique t m) = state m OR UPGRADE_PENDING_FLAG
   \<and> PENDING (state (upgrade_to_unique t m))
   \<and> threads (upgrade_to_unique t m) = (threads m)[t := Testing in_upgrade_to_unique]
   \<and> signals (upgrade_to_unique t m) = signals m
   \<and> gate_of in_upgrade_to_unique = gate2
   \<and> wait t in_upgrade_to_unique m =
       (if READERS (state m) = 0
        then m\<lparr>state := WRITE_LOCKED_FLAG, internal_mutex := None,
               threads := (threads m)[t := Idle], upgrade_holder := None,
               unique_holder := Some t\<rparr>
        else m\<lparr>internal_mutex := None, threads := (threads m)[t := Parked in_upgrade_to_unique]\<rparr>)
   \<and> (WRITER WRITE_LOCKED_FLAG \<and> \<not> UPGRADER WRITE_LOCKED_FLAG \<and> \<not> PENDING WRITE_LOCKED_FLAG
        \<and> READERS WRITE_LOCKED_FLAG = 0)"
proof -
  have a: "state (upgrade_to_unique t m) = state m OR UPGRADE_PENDING_FLAG"
    by (simp add: upgrade_to_unique_def begin_wait_def fetch_or_def Let_def)
  have b: "threads (upgrade_to_unique t m) = (threads m)[t := Testing in_upgrade_to_unique]
      \<and> signals (upgrade_to_unique t m) = signals m"
    by (simp add: upgrade_to_unique_def begin_wait_def fetch_or_def Let_def)
  have c: "wait t in_upgrade_to_unique m =
       (if READERS (state m) = 0
        then m\<lparr>state := WRITE_LOCKED_FLAG, internal_mutex := None,
               threads := (threads m)[t := Idle], upgrade_holder := None,
               unique_holder := Some t\<rparr>
        else m\<lparr>internal_mutex := None, threads := (threads m)[t := Parked in_upgrade_to_unique]\<rparr>)"
    by (simp add: wait_def test_predicate_def upgrade_to_unique_predicate_def readers_eq_zero)
  from a b c fields_const(2) fields_or_UPGRADE_PENDING_FLAG [of "state m"] show ?thesis
    by simp
qed

section \<open>The state word and the holders\<close>

lemma upgrading_wake [simp]: "upgrading (wake st) = upgrading st"
  by (cases st) simp_all

lemma notify_all_fields [simp]:
  "state (notify_all g m) = state m" "internal_mutex (notify_all g m) = internal_mutex m"
  "shared_holders (notify_all g m) = shared_holders m"
  "upgrade_holder (notify_all g m) = upgrade_holder m"
  "unique_holder (notify_all g m) = unique_holder m"
  "length (threads (notify_all g m)) = length (threads m)"
  by (simp_all add: notify_all_def)

lemma notify_one_fields [simp]:
  "state (notify_one pick g m) = state m" "internal_mutex (notify_one pick g m) = internal_mutex m"
  "shared_holders (notify_one pick g m) = shared_holders m"
  "upgrade_holder (notify_one pick g m) = upgrade_holder m"
  "unique_holder (notify_one pick g m) = unique_holder m"
  "length (threads (notify_one pick g m)) = length (threads m)"
  by (simp_all add: notify_one_def Let_def split: list.splits)

lemma upgrading_notify_all [simp]:
  "t < length (threads m) \<Longrightarrow> upgrading (threads (notify_all g m) ! t) = upgrading (threads m ! t)"
  by (simp add: notify_all_def)

lemma upgrading_wake_update:
  "t < length ths \<Longrightarrow> upgrading (ths[i := wake (ths ! i)] ! t) = upgrading (ths ! t)"
  by (cases "i = t") simp_all

lemma upgrading_notify_one [simp]:
  "t < length (threads m) \<Longrightarrow>
     upgrading (threads (notify_one pick g m) ! t) = upgrading (threads m ! t)"
  by (simp add: notify_one_def Let_def upgrading_wake_update split: list.splits)

lemma consistent_notify_all [simp]: "consistent (notify_all g m) = consistent m"
  unfolding consistent_def by (simp cong: conj_cong)

lemma consistent_notify_one [simp]: "consistent (notify_one pick g m) = consistent m"
  unfolding consistent_def by (simp cong: conj_cong)

lemma consistent_internal_mutex [simp]:
  "consistent (m\<lparr>internal_mutex := x\<rparr>) = consistent m"
  by (simp add: consistent_def)

lemma consistent_threads_update:
  assumes "t < length (threads m)" "upgrading st = upgrading (threads m ! t)"
  shows "consistent (m\<lparr>threads := (threads m)[t := st]\<rparr>) = consistent m"
proof -
  have "upgrading ((threads m)[t := st] ! u) = upgrading (threads m ! u)"
    if "u < length (threads m)" for u
    using assms that by (cases "u = t") simp_all
  then show ?thesis
    unfolding consistent_def by (simp cong: conj_cong)
qed

lemma consistent_begin_wait:
  assumes "consistent m" "t < length (threads m)" "threads m ! t = Idle"
    "w \<noteq> in_upgrade_to_unique"
  shows "consistent (begin_wait t w (m\<lparr>internal_mutex := x\<rparr>))"
proof -
  have "consistent ((m\<lparr>internal_mutex := x\<rparr>)
      \<lparr>threads := (threads (m\<lparr>internal_mutex := x\<rparr>))[t := Testing w]\<rparr>)
    = consistent (m\<lparr>internal_mutex := x\<rparr>)"
    using assms by (intro consistent_threads_update) simp_all
  with assms(1) show ?thesis
    by (simp add: begin_wait_def)
qed

lemma consistent_unlock:
  assumes "consistent m" "unique_holder m = Some t"
  shows "consistent (unlock pick t m)"
proof -
  from assms have w: "WRITER (state m)"
    by (simp add: consistent_def)
  have "consistent (m\<lparr>state := state m - WRITE_LOCKED_FLAG, unique_holder := None\<rparr>)"
    using assms fields_sub_WRITE_LOCKED_FLAG [OF w] unfolding consistent_def by auto
  then show ?thesis
    by (simp add: unlock_def fetch_sub_def Let_def)
qed

lemma consistent_unlock_shared:
  assumes "consistent m" "t \<in> set (shared_holders m)"
  shows "consistent (unlock_shared pick t m)"
proof -
  from assms have r: "READERS (state m) \<noteq> 0"
    by (auto simp add: consistent_def)
  from assms have u: "unique_holder m = None"
    by (auto simp add: consistent_def)
  have "consistent (m\<lparr>state := state m - ONE_READER,
      shared_holders := remove1 t (shared_holders m)\<rparr>)"
    using assms u fields_sub_ONE_READER [OF r] unfolding consistent_def
    by (simp add: length_remove1)
  then show ?thesis
    by (simp add: unlock_shared_def fetch_sub_def Let_def)
qed

lemma consistent_unlock_upgrade:
  assumes "consistent m" "t < length (threads m)" "threads m ! t = Idle"
    "upgrade_holder m = Some t"
  shows "consistent (unlock_upgrade pick t m)"
proof -
  from assms have w: "UPGRADER (state m)"
    by (simp add: consistent_def)
  from assms have p: "\<not> PENDING (state m)"
    by (simp add: consistent_def)
  from assms have n: "\<not> upgrading (threads m ! u)" if "u < length (threads m)" for u
    using that by (auto simp add: consistent_def)
  from assms have u: "unique_holder m = None"
    by (auto simp add: consistent_def)
  have "consistent (m\<lparr>state := state m - UPGRADE_LOCKED_FLAG, upgrade_holder := None\<rparr>)"
    using assms p n u fields_sub_UPGRADE_LOCKED_FLAG [OF w] unfolding consistent_def by simp
  then show ?thesis
    by (simp add: unlock_upgrade_def fetch_sub_def Let_def)
qed

lemma consistent_upgrade_to_unique:
  assumes "consistent m" "t < length (threads m)" "threads m ! t = Idle"
    "upgrade_holder m = Some t"
  shows "consistent (upgrade_to_unique t m)"
proof -
  from assms have n: "\<not> upgrading (threads m ! u)" if "u < length (threads m)" for u
    using that by (auto simp add: consistent_def)
  from assms have u: "unique_holder m = None"
    by (auto simp add: consistent_def)
  have "upgrading ((threads m)[t := Testing in_upgrade_to_unique] ! u) \<longleftrightarrow> u = t"
    if "u < length (threads m)" for u
    using that n [of u] by (cases "u = t") simp_all
  then show ?thesis
    using assms u fields_or_UPGRADE_PENDING_FLAG [of "state m"]
    unfolding consistent_def upgrade_to_unique_def begin_wait_def fetch_or_def Let_def
    by (simp cong: conj_cong)
qed

lemma consistent_unique_to_upgrade:
  assumes "consistent m" "t < length (threads m)" "threads m ! t = Idle"
    "unique_holder m = Some t"
  shows "consistent (unique_to_upgrade t m)"
proof -
  from assms have n: "\<not> upgrading (threads m ! u)" if "u < length (threads m)" for u
    using that by (auto simp add: consistent_def)
  have "consistent (m\<lparr>state := UPGRADE_LOCKED_FLAG, unique_holder := None,
      upgrade_holder := Some t\<rparr>)"
    using assms n fields_const(3) unfolding consistent_def by auto
  then show ?thesis
    by (simp add: unique_to_upgrade_def Let_def)
qed

lemma consistent_unique_to_shared:
  assumes "consistent m" "unique_holder m = Some t"
  shows "consistent (unique_to_shared t m)"
proof -
  from assms have n: "\<not> upgrading (threads m ! u)" if "u < length (threads m)" for u
    using that by (auto simp add: consistent_def)
  have "consistent (m\<lparr>state := ONE_READER, unique_holder := None,
      shared_holders := t # shared_holders m\<rparr>)"
    using assms n fields_const(4) unfolding consistent_def by simp
  then show ?thesis
    by (simp add: unique_to_shared_def Let_def)
qed

lemma consistent_call:
  assumes "consistent m" "step pick (Call t op) m = Some m'"
  shows "consistent m'"
proof -
  from assms(2) have t: "t < length (threads m)" "threads m ! t = Idle" "holds_for op t m"
    and m': "m' = perform pick op t m"
    by (auto split: if_splits)
  show ?thesis
    unfolding m' using assms(1) t
    by (cases op)
      (simp_all add: lock_def lock_shared_def lock_upgrade_def consistent_begin_wait
        consistent_unlock consistent_unlock_shared consistent_unlock_upgrade
        consistent_upgrade_to_unique consistent_unique_to_upgrade consistent_unique_to_shared
        scoped_upgrade_entry_def scoped_upgrade_exit_def)
qed

lemma consistent_status:
  assumes "consistent m" "t < length (threads m)" "upgrading st = upgrading (threads m ! t)"
  shows "consistent (m\<lparr>internal_mutex := x, threads := (threads m)[t := st]\<rparr>)"
proof -
  have "consistent ((m\<lparr>internal_mutex := x\<rparr>)
      \<lparr>threads := (threads (m\<lparr>internal_mutex := x\<rparr>))[t := st]\<rparr>)
    = consistent (m\<lparr>internal_mutex := x\<rparr>)"
    using assms by (intro consistent_threads_update) simp_all
  with assms(1) show ?thesis
    by simp
qed

lemma consistent_parked:
  assumes "consistent m" "t < length (threads m)"
    "upgrading (threads m ! t) = (w = in_upgrade_to_unique)"
  shows "consistent (m\<lparr>internal_mutex := x, threads := (threads m)[t := Parked w]\<rparr>)"
  using assms(1,2) by (rule consistent_status) (simp add: assms(3))

lemma consistent_returned:
  assumes "consistent m" "t < length (threads m)" "\<not> upgrading (threads m ! t)"
  shows "consistent (m\<lparr>internal_mutex := x, threads := (threads m)[t := Idle]\<rparr>)"
  using assms(1,2) by (rule consistent_status) (simp add: assms(3))

lemma consistent_test_lock:
  assumes "consistent m" "t < length (threads m)" "\<not> upgrading (threads m ! t)"
  shows "consistent (test_predicate t in_lock v m)"
proof (cases "v = 0 \<and> state m = 0")
  case True
  with assms(1) have h: "upgrade_holder m = None" "shared_holders m = []"
    by (simp_all add: consistent_def fields_const)
  then have n: "\<not> upgrading (threads m ! u)" if "u < length (threads m)" for u
    using assms(1) that by (auto simp add: consistent_def)
  have "\<not> upgrading ((threads m)[t := Idle] ! u)" if "u < length (threads m)" for u
    using that n [of u] by (cases "u = t") simp_all
  then show ?thesis
    using True h fields_const(2) unfolding consistent_def test_predicate_def
    by (simp add: lock_predicate_eq cong: conj_cong)
next
  case False
  have "upgrading (threads m ! t) = (in_lock = in_upgrade_to_unique)"
    using assms(3) by simp
  from consistent_parked [OF assms(1,2) this] False show ?thesis
    by (auto simp add: test_predicate_def lock_predicate_eq)
qed

lemma consistent_add_reader:
  assumes "consistent m" "\<not> WRITER (state m)" "READERS (state m) \<noteq> 2 ^ 29 - 1"
  shows "consistent (m\<lparr>state := state m + ONE_READER, shared_holders := t # shared_holders m\<rparr>)"
proof -
  note f = fields_add_ONE_READER [OF assms(3)]
  from assms(1,2) have u: "unique_holder m = None"
    by (simp add: consistent_def)
  from assms(1) have c:
    "UPGRADER (state m) \<longleftrightarrow> upgrade_holder m \<noteq> None"
    "PENDING (state m) \<longleftrightarrow>
          (\<exists>t. upgrade_holder m = Some t \<and> t < length (threads m) \<and> upgrading (threads m ! t))"
    "READERS (state m) = length (shared_holders m)"
    "\<forall>t. t < length (threads m) \<and> upgrading (threads m ! t) \<longrightarrow> upgrade_holder m = Some t"
    by (simp_all add: consistent_def)
  have "consistent (m\<lparr>state := state m + ONE_READER, shared_holders := t # shared_holders m\<rparr>)
    \<longleftrightarrow> (WRITER (state m + ONE_READER) \<longleftrightarrow> unique_holder m \<noteq> None)
     \<and> (UPGRADER (state m + ONE_READER) \<longleftrightarrow> upgrade_holder m \<noteq> None)
     \<and> (PENDING (state m + ONE_READER) \<longleftrightarrow>
          (\<exists>t. upgrade_holder m = Some t \<and> t < length (threads m) \<and> upgrading (threads m ! t)))
     \<and> READERS (state m + ONE_READER) = Suc (length (shared_holders m))
     \<and> (\<forall>t. t < length (threads m) \<and> upgrading (threads m ! t) \<longrightarrow> upgrade_holder m = Some t)
     \<and> (unique_holder m \<noteq> None \<longrightarrow> upgrade_holder m = None \<and> False)"
    unfolding consistent_def by simp
  also have "\<dots>"
  proof -
    from f have f': "WRITER (state m + ONE_READER) = WRITER (state m)"
      "UPGRADER (state m + ONE_READER) = UPGRADER (state m)"
      "PENDING (state m + ONE_READER) = PENDING (state m)"
      "READERS (state m + ONE_READER) = Suc (READERS (state m))"
      by simp_all
    show ?thesis
      unfolding f' c(3) using assms(2) u c(1,2,4) by blast
  qed
  finally show ?thesis .
qed

lemma consistent_test_lock_shared:
  assumes "consistent m" "t < length (threads m)" "\<not> upgrading (threads m ! t)"
    "length (shared_holders (test_predicate t in_lock_shared v m)) < 2 ^ 29"
  shows "consistent (test_predicate t in_lock_shared v m)"
proof (cases "\<not> WRITER v \<and> \<not> PENDING v \<and> state m = v")
  case True
  let ?m = "m\<lparr>internal_mutex := None, threads := (threads m)[t := Idle]\<rparr>"
  from True have w: "test_predicate t in_lock_shared v m
      = ?m\<lparr>state := state ?m + ONE_READER, shared_holders := t # shared_holders ?m\<rparr>"
    by (simp add: test_predicate_def lock_shared_predicate_eq)
  from assms(4) have "Suc (length (shared_holders m)) < 2 ^ 29"
    unfolding w by simp
  with assms(1) have r: "READERS (state ?m) \<noteq> 2 ^ 29 - 1"
    by (simp add: consistent_def)
  have c: "consistent ?m"
    using assms(1-3) by (rule consistent_returned)
  from True have n: "\<not> WRITER (state ?m)"
    by simp
  show ?thesis
    unfolding w using c n r by (rule consistent_add_reader)
next
  case False
  then have "test_predicate t in_lock_shared v m
      = m\<lparr>internal_mutex := None, threads := (threads m)[t := Parked in_lock_shared]\<rparr>"
    by (auto simp add: test_predicate_def lock_shared_predicate_eq)
  moreover have "upgrading (threads m ! t) = (in_lock_shared = in_upgrade_to_unique)"
    using assms(3) by simp
  ultimately show ?thesis
    using consistent_parked [OF assms(1,2)] by simp
qed

lemma consistent_test_lock_upgrade:
  assumes "consistent m" "t < length (threads m)" "\<not> upgrading (threads m ! t)"
  shows "consistent (test_predicate t in_lock_upgrade v m)"
proof (cases "\<not> WRITER v \<and> \<not> UPGRADER v \<and> state m = v")
  case True
  with assms(1) have h: "upgrade_holder m = None" "unique_holder m = None"
    by (simp_all add: consistent_def)
  then have n: "\<not> upgrading (threads m ! u)" if "u < length (threads m)" for u
    using assms(1) that by (auto simp add: consistent_def)
  have "\<not> upgrading ((threads m)[t := Idle] ! u)" if "u < length (threads m)" for u
    using that n [of u] by (cases "u = t") simp_all
  then show ?thesis
    using True h assms(1) fields_or_UPGRADE_LOCKED_FLAG [of "state m"]
    unfolding consistent_def test_predicate_def
    by (simp add: lock_upgrade_predicate_eq cong: conj_cong)
next
  case False
  then have "test_predicate t in_lock_upgrade v m
      = m\<lparr>internal_mutex := None, threads := (threads m)[t := Parked in_lock_upgrade]\<rparr>"
    by (auto simp add: test_predicate_def lock_upgrade_predicate_eq)
  moreover have "upgrading (threads m ! t) = (in_lock_upgrade = in_upgrade_to_unique)"
    using assms(3) by simp
  ultimately show ?thesis
    using consistent_parked [OF assms(1,2)] by simp
qed

lemma consistent_test_upgrade_to_unique:
  assumes "consistent m" "t < length (threads m)" "upgrading (threads m ! t)"
  shows "consistent (test_predicate t in_upgrade_to_unique v m)"
proof (cases "READERS (state m) = 0")
  case True
  from assms have h: "upgrade_holder m = Some t"
    by (simp add: consistent_def)
  have "\<not> upgrading ((threads m)[t := Idle] ! u)" if "u < length (threads m)" for u
    using that assms(1) h by (cases "u = t") (auto simp add: consistent_def)
  then show ?thesis
    using True assms(1) fields_const(2) unfolding consistent_def test_predicate_def
    by (simp add: upgrade_to_unique_predicate_def readers_eq_zero cong: conj_cong)
next
  case False
  have "upgrading (threads m ! t) = (in_upgrade_to_unique = in_upgrade_to_unique)"
    using assms(3) by simp
  from consistent_parked [OF assms(1,2) this] False show ?thesis
    by (simp add: test_predicate_def upgrade_to_unique_predicate_def readers_eq_zero)
qed

lemma consistent_test_predicate:
  assumes "consistent m" "t < length (threads m)"
    "upgrading (threads m ! t) = (w = in_upgrade_to_unique)"
    "length (shared_holders (test_predicate t w v m)) < 2 ^ 29"
  shows "consistent (test_predicate t w v m)"
  using assms
  by (cases w)
    (simp_all add: consistent_test_lock consistent_test_lock_shared
      consistent_test_lock_upgrade consistent_test_upgrade_to_unique)

lemma consistent_step:
  assumes "consistent m" "step pick e m = Some m'" "length (shared_holders m') < 2 ^ 29"
  shows "consistent m'"
proof (cases e)
  case (Call t op)
  with assms show ?thesis
    using consistent_call by blast
next
  case (Load t)
  with assms(2) obtain w where t: "t < length (threads m)" "threads m ! t = Testing w"
    and m': "m' = m\<lparr>internal_mutex := Some t, threads := (threads m)[t := Loaded w (state m)]\<rparr>"
    by (auto split: if_splits status.splits)
  have "upgrading (Loaded w (state m)) = upgrading (threads m ! t)"
    using t by simp
  with assms(1) t(1) show ?thesis
    unfolding m' by (rule consistent_status)
next
  case (Step t)
  with assms(2) obtain w v where t: "t < length (threads m)"
    "upgrading (threads m ! t) = (w = in_upgrade_to_unique)"
    and m': "m' = test_predicate t w v m"
    by (auto simp add: wait_def split: if_splits status.splits)
  show ?thesis
    using assms(1) t assms(3) unfolding m' by (rule consistent_test_predicate)
next
  case (Spurious t)
  with assms(2) obtain w where t: "t < length (threads m)" "threads m ! t = Parked w"
    and m': "m' = m\<lparr>threads := (threads m)[t := Testing w]\<rparr>"
    by (auto split: if_splits status.splits)
  show ?thesis
    using assms(1) t unfolding m' by (simp add: consistent_threads_update)
qed

lemma most_shared_ge: "length (shared_holders m) \<le> most_shared pick es m"
  by (cases es) (simp_all split: option.splits)

lemma consistent_run:
  assumes "run pick es m = Some m'" "most_shared pick es m < 2 ^ 29" "consistent m"
  shows "consistent m'"
  using assms
proof (induction es arbitrary: m)
  case Nil
  then show ?case by simp
next
  case (Cons e es)
  from Cons.prems(1) obtain m1 where s: "step pick e m = Some m1" and r: "run pick es m1 = Some m'"
    by (auto split: option.splits)
  from Cons.prems(2) s have b: "most_shared pick es m1 < 2 ^ 29"
    by simp
  with most_shared_ge [of m1 pick es] have "length (shared_holders m1) < 2 ^ 29"
    by simp
  with Cons.prems(3) s have "consistent m1"
    using consistent_step by blast
  with Cons.IH r b show ?case
    by blast
qed

lemma consistent_init: "consistent (init n)"
  by (simp add: consistent_def init_def fields_const)

lemma consistent_P1_P2: "consistent m \<Longrightarrow> P1 (state m) \<and> P2 (state m)"
  unfolding consistent_def P1_def P2_def by auto

lemma run_append:
  "run pick (xs @ ys) m = (case run pick xs m of None \<Rightarrow> None | Some m' \<Rightarrow> run pick ys m')"
  by (induction xs arbitrary: m) (auto split: option.splits)

text \<open>
  Claim C8. \<^verbatim>\<open>scoped_upgrade_entry\<close> is \<^verbatim>\<open>upgrade_to_unique\<close> and
  \<^verbatim>\<open>scoped_upgrade_exit\<close> is \<^verbatim>\<open>unique_to_upgrade\<close>; a \<^verbatim>\<open>scoped_upgrade\<close> built on a
  guard that has a mutex calls the first when constructed and the second when destroyed.
  So in every run from the free mutex in which thread \<open>t\<close> enters a scoped upgrade and
  later leaves it, whatever happens before and between, the state word ends with the
  upgrader bit set and the writer bit clear, and \<open>t\<close> holds the upgradeable lock.
\<close>

theorem scoped_upgrade_keeps_upgradeable_hold:
  "scoped_upgrade_entry t m = upgrade_to_unique t m
   \<and> scoped_upgrade_exit t m = unique_to_upgrade t m
   \<and> step pick (Call t ScopedUpgradeEntry) m = step pick (Call t UpgradeToUnique) m
   \<and> step pick (Call t ScopedUpgradeExit) m = step pick (Call t UniqueToUpgrade) m
   \<and> snd (scoped_upgrade (constructed_on a)) = [(a, ScopedUpgradeEntry)]
   \<and> scoped_upgrade_destroyed (fst (scoped_upgrade (constructed_on a))) = [(a, ScopedUpgradeExit)]
   \<and> (run pick (before @ [Call t ScopedUpgradeEntry] @ between @ [Call t ScopedUpgradeExit])
          (init n) = Some m'
        \<longrightarrow> UPGRADER (state m') \<and> \<not> WRITER (state m') \<and> upgrade_holder m' = Some t
            \<and> unique_holder m' = None)"
proof -
  have a: "step pick (Call t ScopedUpgradeEntry) m = step pick (Call t UpgradeToUnique) m
      \<and> step pick (Call t ScopedUpgradeExit) m = step pick (Call t UniqueToUpgrade) m"
    by (simp add: scoped_upgrade_entry_def scoped_upgrade_exit_def)
  have b: "snd (scoped_upgrade (constructed_on a)) = [(a, ScopedUpgradeEntry)]
      \<and> scoped_upgrade_destroyed (fst (scoped_upgrade (constructed_on a))) = [(a, ScopedUpgradeExit)]"
    by (simp add: scoped_upgrade_def scoped_upgrade_destroyed_def constructed_on_def mutex_def)
  have c: "UPGRADER (state m') \<and> \<not> WRITER (state m') \<and> upgrade_holder m' = Some t
            \<and> unique_holder m' = None"
    if "run pick (before @ [Call t ScopedUpgradeEntry] @ between @ [Call t ScopedUpgradeExit])
          (init n) = Some m'"
  proof -
    from that obtain m1 where "step pick (Call t ScopedUpgradeExit) m1 = Some m'"
      by (auto simp add: run_append split: option.splits)
    then have "m' = scoped_upgrade_exit t m1"
      by (auto split: if_splits)
    then show ?thesis
      by (simp add: scoped_upgrade_exit_def unique_to_upgrade_def notify_all_def fields_const)
  qed
  from a b c show ?thesis
    by (simp add: scoped_upgrade_entry_def scoped_upgrade_exit_def)
qed

theorem scoped_upgrade_keeps_upgradeable_hold_witness:
  "run hd ([Call 0 LockUpgrade, Step 0] @ [Call 0 ScopedUpgradeEntry] @ [Step 0]
           @ [Call 0 ScopedUpgradeExit]) (init 1)
     = Some \<lparr>state = UPGRADE_LOCKED_FLAG, internal_mutex = None, threads = [Idle],
         signals = [notified_all gate1], shared_holders = [], upgrade_holder = Some 0,
         unique_holder = None\<rparr>
   \<and> UPGRADER UPGRADE_LOCKED_FLAG \<and> \<not> WRITER UPGRADE_LOCKED_FLAG"
proof -
  have h: "run hd ([Call 0 LockUpgrade, Step 0] @ [Call 0 ScopedUpgradeEntry] @ [Step 0]
           @ [Call 0 ScopedUpgradeExit]) (init 1)
     = Some \<lparr>state = UPGRADE_LOCKED_FLAG, internal_mutex = None, threads = [Idle],
         signals = [notified_all gate1], shared_holders = [], upgrade_holder = Some 0,
         unique_holder = None\<rparr>"
    by (simp add: init_def method_defs atomic_defs word_defs Let_def)
  from scoped_upgrade_keeps_upgradeable_hold
    [of 0 "init 1" hd 0 "[Call 0 LockUpgrade, Step 0]" "[Step 0]" 1
       "\<lparr>state = UPGRADE_LOCKED_FLAG, internal_mutex = None, threads = [Idle],
         signals = [notified_all gate1], shared_holders = [], upgrade_holder = Some 0,
         unique_holder = None\<rparr>"] h
  show ?thesis by simp
qed

text \<open>
  Claim C7. From the free mutex, one thread running \<^verbatim>\<open>lock_upgrade\<close>,
  \<^verbatim>\<open>upgrade_to_unique\<close>, \<^verbatim>\<open>unique_to_upgrade\<close> and \<^verbatim>\<open>unlock_upgrade\<close> in this order
  returns from each call and leaves the state word zero, with nothing held.
\<close>

theorem upgrade_cycle_returns_to_free:
  "map_option (\<lambda>m. (state m, threads m, upgrade_holder m, unique_holder m, shared_holders m))
     (run pick [Call 0 LockUpgrade, Step 0, Call 0 UpgradeToUnique, Step 0,
                Call 0 UniqueToUpgrade, Call 0 UnlockUpgrade] (init 1))
   = Some (0, [Idle], None, None, [])"
  by (simp add: init_def method_defs atomic_defs word_defs Let_def)

text \<open>
  Claim C3, as the code has it. In every state that a run of calls, predicate tests and
  spurious wakeups reaches from the free mutex, each call made by an idle thread that
  holds what the call needs, the writer bit excludes the upgrader bit, the pending bit
  and every reader, and the pending bit comes with the upgrader bit; this holds as long
  as the run never has \<open>2 ^ 29\<close> or more shared holds outstanding.
\<close>

theorem invariants_hold_below_reader_capacity:
  assumes "run pick es (init n) = Some m" "most_shared pick es (init n) < 2 ^ 29"
  shows "P1 (state m) \<and> P2 (state m)"
  using consistent_run [OF assms consistent_init] by (rule consistent_P1_P2)

theorem invariants_hold_below_reader_capacity_witness:
  "run hd drain_scenario (init 3)
     = Some \<lparr>state = UPGRADE_LOCKED_FLAG OR UPGRADE_PENDING_FLAG, internal_mutex = None,
         threads = [Parked in_upgrade_to_unique, Idle, Parked in_lock_shared], signals = [],
         shared_holders = [], upgrade_holder = Some 0, unique_holder = None\<rparr>
   \<and> most_shared hd drain_scenario (init 3) < 2 ^ 29
   \<and> P1 (UPGRADE_LOCKED_FLAG OR UPGRADE_PENDING_FLAG)
   \<and> P2 (UPGRADE_LOCKED_FLAG OR UPGRADE_PENDING_FLAG)"
proof -
  have r: "run hd drain_scenario (init 3)
     = Some \<lparr>state = UPGRADE_LOCKED_FLAG OR UPGRADE_PENDING_FLAG, internal_mutex = None,
         threads = [Parked in_upgrade_to_unique, Idle, Parked in_lock_shared], signals = [],
         shared_holders = [], upgrade_holder = Some 0, unique_holder = None\<rparr>"
    by (simp add: drain_scenario_def init_def method_defs atomic_defs word_defs Let_def
        numeral_3_eq_3)
  have b: "most_shared hd drain_scenario (init 3) < 2 ^ 29"
    by (simp add: drain_scenario_def init_def method_defs atomic_defs word_defs Let_def
        numeral_3_eq_3)
  from invariants_hold_below_reader_capacity [OF r b] r b show ?thesis
    by simp
qed

lemma flags_of_nat:
  assumes "k < 2 ^ 29"
  shows "\<not> WRITER (of_nat k) \<and> \<not> PENDING (of_nat k)"
proof -
  have "\<not> bit k i" if "29 \<le> i" for i
  proof -
    have "(2 :: nat) ^ 29 \<le> 2 ^ i"
      using that by (rule power_increasing) simp
    with assms have "k < 2 ^ i"
      by simp
    then show ?thesis
      by (simp add: bit_iff_odd)
  qed
  then show ?thesis
    by (simp add: WRITER_bit PENDING_bit bit_of_nat_iff)
qed

lemma one_more_reader:
  assumes "\<not> WRITER (of_nat k) \<and> \<not> PENDING (of_nat k)"
  shows "run pick [Call 0 LockShared, Step 0] (readers_only k) = Some (readers_only (Suc k))"
proof -
  have 1: "step pick (Call 0 LockShared) (readers_only k)
      = Some ((readers_only k)\<lparr>internal_mutex := Some 0, threads := [Testing in_lock_shared]\<rparr>)"
    by (simp add: readers_only_def lock_shared_def begin_wait_def)
  have 2: "step pick (Step 0)
        ((readers_only k)\<lparr>internal_mutex := Some 0, threads := [Testing in_lock_shared]\<rparr>)
      = Some (readers_only (Suc k))"
    using assms
    by (simp add: readers_only_def wait_def test_predicate_def lock_shared_predicate_eq
        ONE_READER_def)
  show ?thesis
    by (simp only: run.simps 1 2 option.case)
qed

lemma many_readers:
  "j + k \<le> 2 ^ 29 \<Longrightarrow>
     run pick (concat (replicate k [Call 0 LockShared, Step 0])) (readers_only j)
       = Some (readers_only (j + k))"
proof (induction k arbitrary: j)
  case 0
  then show ?case by simp
next
  case (Suc k)
  let ?xs = "[Call 0 LockShared, Step 0]"
  from Suc.prems have j: "j < 2 ^ 29" and le: "Suc j + k \<le> 2 ^ 29"
    by simp_all
  have c: "concat (replicate (Suc k) ?xs) = ?xs @ concat (replicate k ?xs)"
    by simp
  have "run pick (concat (replicate (Suc k) ?xs)) (readers_only j)
      = run pick (concat (replicate k ?xs)) (readers_only (Suc j))"
    unfolding c run_append one_more_reader [OF flags_of_nat [OF j]] by (simp only: option.case)
  also have "\<dots> = Some (readers_only (Suc j + k))"
    using le by (rule Suc.IH)
  finally show ?case
    by (simp only: add_Suc add_Suc_right)
qed

lemma state_readers_only: "state (readers_only k) = of_nat k"
  by (simp add: readers_only_def)

text \<open>
  Claim C3 as stated fails once the reader field overflows: after \<open>2 ^ 29\<close> calls
  of \<^verbatim>\<open>lock_shared\<close> by one thread, none of them released, the state word is the
  pending bit alone, so the pending bit is set without the upgrader bit.
\<close>

theorem reader_overflow_breaks_pending_implies_upgrader:
  "map_option state (run hd (concat (replicate (2 ^ 29) [Call 0 LockShared, Step 0])) (init 1))
     = Some UPGRADE_PENDING_FLAG
   \<and> PENDING UPGRADE_PENDING_FLAG \<and> \<not> UPGRADER UPGRADE_PENDING_FLAG
   \<and> \<not> P2 UPGRADE_PENDING_FLAG"
proof -
  have i: "init 1 = readers_only 0"
    by (simp add: init_def readers_only_def)
  have le: "0 + 2 ^ 29 \<le> (2 :: nat) ^ 29"
    by simp
  have r: "run hd (concat (replicate (2 ^ 29) [Call 0 LockShared, Step 0])) (init 1)
      = Some (readers_only (0 + 2 ^ 29))"
    unfolding i by (rule many_readers [OF le])
  have s: "state (readers_only (0 + 2 ^ 29)) = UPGRADE_PENDING_FLAG"
    unfolding state_readers_only by (simp add: word_defs)
  have f: "PENDING UPGRADE_PENDING_FLAG" "\<not> UPGRADER UPGRADE_PENDING_FLAG"
    by (simp_all add: field_defs word_defs)
  then have p: "\<not> P2 UPGRADE_PENDING_FLAG"
    by (simp add: P2_def)
  show ?thesis
    unfolding r by (simp only: option.map s f p simp_thms)
qed

text \<open>
  Claim C9, as the code has it. In every state that a run from the free mutex reaches
  with fewer than \<open>2 ^ 29\<close> shared holds outstanding at every moment, a release by a
  thread that holds the mode it releases changes its own field only: the writer bit is
  set and \<^verbatim>\<open>unlock\<close> clears it, there is a reader and \<^verbatim>\<open>unlock_shared\<close> takes one
  away, the upgrader bit is set and \<^verbatim>\<open>unlock_upgrade\<close> clears it, each by its
  subtraction, and the other three fields stay. A successful test of \<^verbatim>\<open>lock_shared\<close>
  adds one reader and leaves the three flags as they were when the reader field is not
  full, that is below \<open>2 ^ 29 - 1\<close>.
\<close>

theorem releases_and_lock_shared_change_one_field:
  assumes "run pick es (init n) = Some m" "most_shared pick es (init n) < 2 ^ 29"
  shows "(holds_for Unlock t m \<longrightarrow>
      WRITER (state m)
      \<and> state (unlock pick t m) = state m - WRITE_LOCKED_FLAG
      \<and> \<not> WRITER (state (unlock pick t m))
      \<and> UPGRADER (state (unlock pick t m)) = UPGRADER (state m)
      \<and> PENDING (state (unlock pick t m)) = PENDING (state m)
      \<and> READERS (state (unlock pick t m)) = READERS (state m))
   \<and> (holds_for UnlockShared t m \<longrightarrow>
      1 \<le> READERS (state m)
      \<and> state (unlock_shared pick t m) = state m - ONE_READER
      \<and> WRITER (state (unlock_shared pick t m)) = WRITER (state m)
      \<and> UPGRADER (state (unlock_shared pick t m)) = UPGRADER (state m)
      \<and> PENDING (state (unlock_shared pick t m)) = PENDING (state m)
      \<and> READERS (state (unlock_shared pick t m)) = READERS (state m) - 1)
   \<and> (holds_for UnlockUpgrade t m \<longrightarrow>
      UPGRADER (state m)
      \<and> state (unlock_upgrade pick t m) = state m - UPGRADE_LOCKED_FLAG
      \<and> WRITER (state (unlock_upgrade pick t m)) = WRITER (state m)
      \<and> \<not> UPGRADER (state (unlock_upgrade pick t m))
      \<and> PENDING (state (unlock_upgrade pick t m)) = PENDING (state m)
      \<and> READERS (state (unlock_upgrade pick t m)) = READERS (state m))
   \<and> (fst (run_predicate in_lock_shared current_state (state m))
        \<and> READERS (state m) < 2 ^ 29 - 1 \<longrightarrow>
      state (test_predicate t in_lock_shared current_state m) = state m + ONE_READER
      \<and> WRITER (state (test_predicate t in_lock_shared current_state m)) = WRITER (state m)
      \<and> UPGRADER (state (test_predicate t in_lock_shared current_state m)) = UPGRADER (state m)
      \<and> PENDING (state (test_predicate t in_lock_shared current_state m)) = PENDING (state m)
      \<and> READERS (state (test_predicate t in_lock_shared current_state m))
          = READERS (state m) + 1)"
proof -
  have c: "consistent m"
    using consistent_run [OF assms consistent_init] .
  have w: "WRITER (state m)" if "holds_for Unlock t m"
    using that c by (simp add: consistent_def)
  have r: "READERS (state m) \<noteq> 0" if "holds_for UnlockShared t m"
    using that c by (auto simp add: consistent_def)
  have r': "Suc 0 \<le> READERS (state m)" if "holds_for UnlockShared t m"
    using r [OF that] by simp
  have u: "UPGRADER (state m)" if "holds_for UnlockUpgrade t m"
    using that c by (simp add: consistent_def)
  have a: "state (test_predicate t in_lock_shared current_state m) = state m + ONE_READER"
    if "fst (run_predicate in_lock_shared current_state (state m))"
    using that by (simp add: test_predicate_def lock_shared_predicate_eq split: if_splits)
  have b: "READERS (state m) \<noteq> 2 ^ 29 - 1" if "READERS (state m) < 2 ^ 29 - 1"
    using that by simp
  show ?thesis
    using fields_sub_WRITE_LOCKED_FLAG [OF w] fields_sub_ONE_READER [OF r]
      fields_sub_UPGRADE_LOCKED_FLAG [OF u] fields_add_ONE_READER [OF b] a w r' u
    by (simp add: state_unlock state_unlock_shared state_unlock_upgrade)
qed

theorem releases_and_lock_shared_change_one_field_witness:
  "run hd [Call 0 Lock, Step 0] (init 1)
     = Some \<lparr>state = WRITE_LOCKED_FLAG, internal_mutex = None, threads = [Idle],
         signals = [], shared_holders = [], upgrade_holder = None, unique_holder = Some 0\<rparr>
   \<and> most_shared hd [Call 0 Lock, Step 0] (init 1) < 2 ^ 29
   \<and> state (unlock hd 0 \<lparr>state = WRITE_LOCKED_FLAG, internal_mutex = None, threads = [Idle],
         signals = [], shared_holders = [], upgrade_holder = None, unique_holder = Some 0\<rparr>) = 0
   \<and> run hd [Call 0 LockShared, Step 0, Call 0 LockUpgrade, Step 0] (init 1)
     = Some \<lparr>state = UPGRADE_LOCKED_FLAG OR ONE_READER, internal_mutex = None,
         threads = [Idle], signals = [], shared_holders = [0], upgrade_holder = Some 0,
         unique_holder = None\<rparr>
   \<and> most_shared hd [Call 0 LockShared, Step 0, Call 0 LockUpgrade, Step 0] (init 1) < 2 ^ 29
   \<and> state (unlock_shared hd 0 \<lparr>state = UPGRADE_LOCKED_FLAG OR ONE_READER,
         internal_mutex = None, threads = [Idle], signals = [], shared_holders = [0],
         upgrade_holder = Some 0, unique_holder = None\<rparr>) = UPGRADE_LOCKED_FLAG
   \<and> state (unlock_upgrade hd 0 \<lparr>state = UPGRADE_LOCKED_FLAG OR ONE_READER,
         internal_mutex = None, threads = [Idle], signals = [], shared_holders = [0],
         upgrade_holder = Some 0, unique_holder = None\<rparr>) = ONE_READER
   \<and> fst (run_predicate in_lock_shared (UPGRADE_LOCKED_FLAG OR ONE_READER)
        (UPGRADE_LOCKED_FLAG OR ONE_READER))
   \<and> READERS (state (test_predicate 0 in_lock_shared (UPGRADE_LOCKED_FLAG OR ONE_READER)
        \<lparr>state = UPGRADE_LOCKED_FLAG OR ONE_READER,
         internal_mutex = None, threads = [Idle], signals = [], shared_holders = [0],
         upgrade_holder = Some 0, unique_holder = None\<rparr>)) = 2"
proof -
  let ?m1 = "\<lparr>state = WRITE_LOCKED_FLAG, internal_mutex = None, threads = [Idle],
         signals = [], shared_holders = [], upgrade_holder = None, unique_holder = Some 0\<rparr>"
  let ?m2 = "\<lparr>state = UPGRADE_LOCKED_FLAG OR ONE_READER, internal_mutex = None,
         threads = [Idle], signals = [], shared_holders = [0], upgrade_holder = Some 0,
         unique_holder = None\<rparr>"
  have r1: "run hd [Call 0 Lock, Step 0] (init 1) = Some ?m1"
    by (simp add: init_def method_defs atomic_defs word_defs Let_def)
  have b1: "most_shared hd [Call 0 Lock, Step 0] (init 1) < 2 ^ 29"
    by (simp add: init_def method_defs atomic_defs word_defs Let_def)
  have r2: "run hd [Call 0 LockShared, Step 0, Call 0 LockUpgrade, Step 0] (init 1) = Some ?m2"
    by (simp add: init_def method_defs atomic_defs word_defs Let_def)
  have b2: "most_shared hd [Call 0 LockShared, Step 0, Call 0 LockUpgrade, Step 0] (init 1)
      < 2 ^ 29"
    by (simp add: init_def method_defs atomic_defs word_defs Let_def)
  have h1: "holds_for Unlock 0 ?m1"
    and h2: "holds_for UnlockShared 0 ?m2"
    and h3: "holds_for UnlockUpgrade 0 ?m2"
    by simp_all
  have h4: "fst (run_predicate in_lock_shared (UPGRADE_LOCKED_FLAG OR ONE_READER) (state ?m2))"
    by (simp add: atomic_defs word_defs)
  have h5: "READERS (state ?m2) < 2 ^ 29 - 1"
    by (simp add: field_defs word_defs)
  note c1 = releases_and_lock_shared_change_one_field
    [OF r1 b1, where t = 0, THEN conjunct1]
  note c2 = releases_and_lock_shared_change_one_field
    [OF r2 b2, where t = 0, THEN conjunct2, THEN conjunct1]
  note c3 = releases_and_lock_shared_change_one_field
    [OF r2 b2, where t = 0, THEN conjunct2, THEN conjunct2, THEN conjunct1]
  note c4 = releases_and_lock_shared_change_one_field
    [OF r2 b2, where t = 0 and current_state = "UPGRADE_LOCKED_FLAG OR ONE_READER",
     THEN conjunct2, THEN conjunct2, THEN conjunct2]
  from c1 h1 have "state (unlock hd 0 ?m1) = state ?m1 - WRITE_LOCKED_FLAG"
    by blast
  then have g1: "state (unlock hd 0 ?m1) = 0"
    by simp
  from c2 h2 have "state (unlock_shared hd 0 ?m2) = state ?m2 - ONE_READER"
    by blast
  then have g2: "state (unlock_shared hd 0 ?m2) = UPGRADE_LOCKED_FLAG"
    by (simp add: word_defs)
  from c3 h3 have "state (unlock_upgrade hd 0 ?m2) = state ?m2 - UPGRADE_LOCKED_FLAG"
    by blast
  then have g3: "state (unlock_upgrade hd 0 ?m2) = ONE_READER"
    by (simp add: word_defs)
  from c4 h4 h5
  have "READERS (state (test_predicate 0 in_lock_shared (UPGRADE_LOCKED_FLAG OR ONE_READER) ?m2))
      = READERS (state ?m2) + 1"
    by blast
  then have g4: "READERS (state (test_predicate 0 in_lock_shared
      (UPGRADE_LOCKED_FLAG OR ONE_READER) ?m2)) = 2"
    by (simp add: field_defs word_defs)
  from h4 have h4': "fst (run_predicate in_lock_shared (UPGRADE_LOCKED_FLAG OR ONE_READER)
        (UPGRADE_LOCKED_FLAG OR ONE_READER))"
    by simp
  from r1 b1 g1 r2 b2 g2 g3 h4' g4 show ?thesis
    by (simp only: simp_thms)
qed

lemma holds_readers_only: "holds_for UnlockShared 0 (readers_only k) = (k \<noteq> 0)"
  by (simp add: readers_only_def)

text \<open>
  Claim C9 as stated fails where the reader field is full: on the word with
  \<open>2 ^ 29 - 1\<close> readers and no flag, \<^verbatim>\<open>lock_shared\<close> succeeds, and the carry out of
  the reader field sets the pending bit and leaves no reader. After \<open>2 ^ 29\<close> calls
  of \<^verbatim>\<open>lock_shared\<close> by one thread the word is that one, the thread holds shared locks,
  and its \<^verbatim>\<open>unlock_shared\<close> borrows from the pending bit: it clears the pending bit and
  fills the reader field.
\<close>

theorem reader_field_carry_changes_pending:
  "lock_shared_predicate READER_COUNT_MASK READER_COUNT_MASK = (True, UPGRADE_PENDING_FLAG)
   \<and> READERS READER_COUNT_MASK = 2 ^ 29 - 1 \<and> \<not> PENDING READER_COUNT_MASK
   \<and> READERS UPGRADE_PENDING_FLAG = 0 \<and> PENDING UPGRADE_PENDING_FLAG
   \<and> map_option (\<lambda>m. (holds_for UnlockShared 0 m, state m, state (unlock_shared hd 0 m)))
       (run hd (concat (replicate (2 ^ 29) [Call 0 LockShared, Step 0])) (init 1))
     = Some (True, UPGRADE_PENDING_FLAG, READER_COUNT_MASK)"
proof -
  have a: "lock_shared_predicate READER_COUNT_MASK READER_COUNT_MASK = (True, UPGRADE_PENDING_FLAG)
   \<and> READERS READER_COUNT_MASK = 2 ^ 29 - 1 \<and> \<not> PENDING READER_COUNT_MASK
   \<and> READERS UPGRADE_PENDING_FLAG = 0 \<and> PENDING UPGRADE_PENDING_FLAG"
    by (simp add: atomic_defs field_defs word_defs)
  have i: "init 1 = readers_only 0"
    by (simp add: init_def readers_only_def)
  have le: "0 + 2 ^ 29 \<le> (2 :: nat) ^ 29"
    by simp
  have r: "run hd (concat (replicate (2 ^ 29) [Call 0 LockShared, Step 0])) (init 1)
      = Some (readers_only (0 + 2 ^ 29))"
    unfolding i by (rule many_readers [OF le])
  have s: "state (readers_only (0 + 2 ^ 29)) = UPGRADE_PENDING_FLAG"
    unfolding state_readers_only by (simp add: word_defs)
  have h: "holds_for UnlockShared 0 (readers_only (0 + 2 ^ 29)) = True"
    unfolding holds_readers_only by simp
  have u: "state (unlock_shared hd 0 (readers_only (0 + 2 ^ 29))) = READER_COUNT_MASK"
    unfolding state_unlock_shared s by (simp add: word_defs)
  show ?thesis
    unfolding r by (simp only: option.map a s h u simp_thms)
qed

section \<open>The upgrade that waits for its readers\<close>

lemma stuck_word:
  "lock_predicate v (UPGRADE_LOCKED_FLAG OR UPGRADE_PENDING_FLAG)
    = (False, UPGRADE_LOCKED_FLAG OR UPGRADE_PENDING_FLAG)"
  "lock_shared_predicate v (UPGRADE_LOCKED_FLAG OR UPGRADE_PENDING_FLAG)
    = (False, UPGRADE_LOCKED_FLAG OR UPGRADE_PENDING_FLAG)"
  "lock_upgrade_predicate v (UPGRADE_LOCKED_FLAG OR UPGRADE_PENDING_FLAG)
    = (False, UPGRADE_LOCKED_FLAG OR UPGRADE_PENDING_FLAG)"
proof -
  have f: "UPGRADER (UPGRADE_LOCKED_FLAG OR UPGRADE_PENDING_FLAG)"
    "PENDING (UPGRADE_LOCKED_FLAG OR UPGRADE_PENDING_FLAG)"
    "UPGRADE_LOCKED_FLAG OR UPGRADE_PENDING_FLAG \<noteq> 0"
    by (simp_all add: field_defs word_defs)
  show "lock_predicate v (UPGRADE_LOCKED_FLAG OR UPGRADE_PENDING_FLAG)
    = (False, UPGRADE_LOCKED_FLAG OR UPGRADE_PENDING_FLAG)"
    unfolding lock_predicate_eq using f(3) by simp
  show "lock_shared_predicate v (UPGRADE_LOCKED_FLAG OR UPGRADE_PENDING_FLAG)
    = (False, UPGRADE_LOCKED_FLAG OR UPGRADE_PENDING_FLAG)"
    unfolding lock_shared_predicate_eq using f(2) by auto
  show "lock_upgrade_predicate v (UPGRADE_LOCKED_FLAG OR UPGRADE_PENDING_FLAG)
    = (False, UPGRADE_LOCKED_FLAG OR UPGRADE_PENDING_FLAG)"
    unfolding lock_upgrade_predicate_eq using f(1) by auto
qed

lemma stuck_call:
  assumes "stuck m" "step pick (Call t op) m = Some m'"
  shows "stuck m'"
proof -
  from assms(2) have t: "t < length (threads m)" "threads m ! t = Idle" "holds_for op t m"
    and m': "m' = perform pick op t m"
    by (auto split: if_splits)
  from assms(1) t have t0: "t \<noteq> 0"
    by (auto simp add: stuck_def)
  have u: "upgrading ((threads m)[t := Testing w] ! u) = upgrading (threads m ! u)"
    if "w \<noteq> in_upgrade_to_unique" "u < length (threads m)" for w u
    using that t by (cases "u = t") simp_all
  show ?thesis
    using assms(1) t t0 unfolding m'
    by (cases op)
      (simp_all add: stuck_def lock_def lock_shared_def lock_upgrade_def begin_wait_def u
        cong: conj_cong)
qed

lemma stuck_load:
  assumes "stuck m" "step pick (Load t) m = Some m'"
  shows "stuck m'"
proof -
  from assms(2) obtain w where t: "t < length (threads m)" "threads m ! t = Testing w"
    and w: "w \<noteq> in_upgrade_to_unique"
    and m': "m' = m\<lparr>internal_mutex := Some t, threads := (threads m)[t := Loaded w (state m)]\<rparr>"
    by (auto split: if_splits status.splits)
  from assms(1) t have t0: "t \<noteq> 0"
    by (auto simp add: stuck_def)
  have u: "upgrading ((threads m)[t := Loaded w v] ! u) = upgrading (threads m ! u)"
    if "u < length (threads m)" for u v
    using that t by (cases "u = t") simp_all
  show ?thesis
    using assms(1) t t0 unfolding m' by (simp add: stuck_def u cong: conj_cong)
qed

lemma stuck_step:
  assumes "stuck m" "step pick (Step t) m = Some m'"
  shows "stuck m'"
proof -
  from assms(2) obtain w v where t: "t < length (threads m)"
    "upgrading (threads m ! t) = (w = in_upgrade_to_unique)"
    "threads m ! t \<noteq> Parked in_upgrade_to_unique"
    and m': "m' = test_predicate t w v m"
    by (auto simp add: wait_def split: if_splits status.splits)
  from assms(1) t have t0: "t \<noteq> 0"
    by (auto simp add: stuck_def)
  with assms(1) t have w: "w \<noteq> in_upgrade_to_unique"
    by (auto simp add: stuck_def)
  have u: "upgrading ((threads m)[t := Parked w] ! u) = upgrading (threads m ! u)"
    if "u < length (threads m)" for u
    using that t w by (cases "u = t") simp_all
  from assms(1) have s: "state m = UPGRADE_LOCKED_FLAG OR UPGRADE_PENDING_FLAG"
    by (simp add: stuck_def)
  from w have "test_predicate t w v m
      = m\<lparr>internal_mutex := None, threads := (threads m)[t := Parked w]\<rparr>"
    by (cases w) (simp_all add: test_predicate_def s stuck_word)
  then show ?thesis
    using assms(1) t t0 unfolding m' by (simp add: stuck_def u cong: conj_cong)
qed

lemma stuck_run:
  assumes "stuck m" "run pick es m = Some m'" "list_all (\<lambda>e. \<not> spurious e) es"
  shows "stuck m'"
  using assms
proof (induction es arbitrary: m)
  case Nil
  then show ?case by simp
next
  case (Cons e es)
  from Cons.prems(2) obtain m1 where s: "step pick e m = Some m1" and r: "run pick es m1 = Some m'"
    by (auto split: option.splits)
  from Cons.prems(3) have n: "\<not> spurious e" "list_all (\<lambda>e. \<not> spurious e) es"
    by simp_all
  from Cons.prems(1) s n(1) have "stuck m1"
    by (cases e) (auto intro: stuck_call stuck_load stuck_step)
  with Cons.IH r n(2) show ?case
    by blast
qed

lemma drain_scenario_run:
  "run pick drain_scenario (init 3)
     = Some \<lparr>state = UPGRADE_LOCKED_FLAG OR UPGRADE_PENDING_FLAG, internal_mutex = None,
         threads = [Parked in_upgrade_to_unique, Idle, Parked in_lock_shared], signals = [],
         shared_holders = [], upgrade_holder = Some 0, unique_holder = None\<rparr>"
  by (simp add: drain_scenario_def init_def method_defs atomic_defs word_defs Let_def
      numeral_3_eq_3)

lemma drain_scenario_stuck:
  "stuck \<lparr>state = UPGRADE_LOCKED_FLAG OR UPGRADE_PENDING_FLAG, internal_mutex = None,
         threads = [Parked in_upgrade_to_unique, Idle, Parked in_lock_shared], signals = [],
         shared_holders = [], upgrade_holder = Some 0, unique_holder = None\<rparr>"
  by (auto simp add: stuck_def less_Suc_eq numeral_3_eq_3 nth_Cons')

text \<open>
  Claim C2. Once \<^verbatim>\<open>upgrade_to_unique\<close> has set the pending bit, a new shared acquirer
  blocks and the shared holders from before may release; when the last of them has
  released, the upgrader should be unblocked and finish with exclusive ownership. In the
  code the last release notifies nobody. After the run \<open>drain_scenario\<close> no reader is
  left and the wait predicate of the upgrader holds, but however the three threads go
  on, as long as no thread wakes spuriously, thread 0 stays blocked in
  \<^verbatim>\<open>upgrade_to_unique\<close>, the state word stays at upgrader plus pending, nobody holds
  the mutex exclusively and no notification is ever made. Had thread 0 been woken, it
  would have finished with the writer bit alone.
\<close>

theorem upgrader_never_woken_after_last_reader:
  "(run pick (drain_scenario @ es) (init 3) = Some m \<and> list_all (\<lambda>e. \<not> spurious e) es
      \<longrightarrow> threads m ! 0 = Parked in_upgrade_to_unique
          \<and> state m = UPGRADE_LOCKED_FLAG OR UPGRADE_PENDING_FLAG
          \<and> upgrade_to_unique_predicate (state m)
          \<and> unique_holder m = None \<and> signals m = [])
   \<and> map_option (\<lambda>m. (state m, threads m ! 0, unique_holder m))
        (run pick (drain_scenario @ [Spurious 0, Step 0]) (init 3))
      = Some (WRITE_LOCKED_FLAG, Idle, Some 0)
   \<and> fst (lock_shared_predicate (UPGRADE_LOCKED_FLAG OR UPGRADE_PENDING_FLAG OR ONE_READER)
        (UPGRADE_LOCKED_FLAG OR UPGRADE_PENDING_FLAG OR ONE_READER)) = False"
proof -
  have a: "threads m ! 0 = Parked in_upgrade_to_unique
          \<and> state m = UPGRADE_LOCKED_FLAG OR UPGRADE_PENDING_FLAG
          \<and> upgrade_to_unique_predicate (state m)
          \<and> unique_holder m = None \<and> signals m = []"
    if "run pick (drain_scenario @ es) (init 3) = Some m" "list_all (\<lambda>e. \<not> spurious e) es"
  proof -
    from that(1) have "run pick es \<lparr>state = UPGRADE_LOCKED_FLAG OR UPGRADE_PENDING_FLAG,
         internal_mutex = None,
         threads = [Parked in_upgrade_to_unique, Idle, Parked in_lock_shared], signals = [],
         shared_holders = [], upgrade_holder = Some 0, unique_holder = None\<rparr> = Some m"
      by (simp only: run_append drain_scenario_run option.case)
    with drain_scenario_stuck have "stuck m"
      using that(2) by (rule stuck_run)
    then show ?thesis
      by (simp add: stuck_def upgrade_to_unique_predicate_def word_defs)
  qed
  have b: "map_option (\<lambda>m. (state m, threads m ! 0, unique_holder m))
        (run pick (drain_scenario @ [Spurious 0, Step 0]) (init 3))
      = Some (WRITE_LOCKED_FLAG, Idle, Some 0)"
    unfolding run_append drain_scenario_run
    by (simp add: method_defs atomic_defs word_defs)
  have c: "fst (lock_shared_predicate (UPGRADE_LOCKED_FLAG OR UPGRADE_PENDING_FLAG OR ONE_READER)
        (UPGRADE_LOCKED_FLAG OR UPGRADE_PENDING_FLAG OR ONE_READER)) = False"
    by (simp add: atomic_defs word_defs)
  from a b c show ?thesis
    by blast
qed

theorem upgrader_never_woken_after_last_reader_witness:
  "run hd (drain_scenario @ [Call 1 Lock, Step 1]) (init 3)
     = Some \<lparr>state = UPGRADE_LOCKED_FLAG OR UPGRADE_PENDING_FLAG, internal_mutex = None,
         threads = [Parked in_upgrade_to_unique, Parked in_lock, Parked in_lock_shared],
         signals = [], shared_holders = [], upgrade_holder = Some 0, unique_holder = None\<rparr>
   \<and> list_all (\<lambda>e. \<not> spurious e) [Call 1 Lock, Step 1]
   \<and> [Parked in_upgrade_to_unique, Parked in_lock, Parked in_lock_shared] ! 0
       = Parked in_upgrade_to_unique"
proof -
  have r: "run hd (drain_scenario @ [Call 1 Lock, Step 1]) (init 3)
     = Some \<lparr>state = UPGRADE_LOCKED_FLAG OR UPGRADE_PENDING_FLAG, internal_mutex = None,
         threads = [Parked in_upgrade_to_unique, Parked in_lock, Parked in_lock_shared],
         signals = [], shared_holders = [], upgrade_holder = Some 0, unique_holder = None\<rparr>"
    unfolding run_append drain_scenario_run
    by (simp add: method_defs atomic_defs word_defs)
  have n: "list_all (\<lambda>e. \<not> spurious e) [Call 1 Lock, Step 1]"
    by simp
  from upgrader_never_woken_after_last_reader
    [of hd "[Call 1 Lock, Step 1]"
       "\<lparr>state = UPGRADE_LOCKED_FLAG OR UPGRADE_PENDING_FLAG, internal_mutex = None,
         threads = [Parked in_upgrade_to_unique, Parked in_lock, Parked in_lock_shared],
         signals = [], shared_holders = [], upgrade_holder = Some 0, unique_holder = None\<rparr>"]
    r n
  show ?thesis
    by simp
qed

section \<open>Guards that hold no mutex\<close>

text \<open>
  Claim C10. A guard whose pointer is null calls no mutex when it is destroyed, whichever
  of the three guard classes it is, and \<^verbatim>\<open>owns_lock\<close> is false for it. The pointer is
  null after default construction, after \<^verbatim>\<open>release\<close>, and in a guard that was moved
  from, by a move constructor, by a transition constructor or by assignment to another
  guard. A \<^verbatim>\<open>scoped_upgrade\<close> built on such a guard calls nothing when constructed and
  nothing when destroyed.
\<close>

theorem guards_without_mutex_call_nothing:
  "(\<not> owns_lock g \<longrightarrow>
      unique_lock_destroyed g = [] \<and> shared_lock_destroyed g = [] \<and> upgrade_lock_destroyed g = [])
   \<and> \<not> owns_lock default_constructed
   \<and> \<not> owns_lock (release g)
   \<and> \<not> owns_lock (snd (move_constructed g))
   \<and> \<not> owns_lock (fst (snd (unique_lock_from_upgrade g)))
   \<and> \<not> owns_lock (fst (snd (upgrade_lock_from_unique g)))
   \<and> \<not> owns_lock (fst (snd (shared_lock_from_unique g)))
   \<and> (this \<noteq> other \<longrightarrow> \<not> owns_lock (move_assigned this other guards other))
   \<and> (\<not> owns_lock g \<longrightarrow>
        snd (scoped_upgrade g) = [] \<and> scoped_upgrade_destroyed (fst (scoped_upgrade g)) = [])"
  by (auto simp add: owns_lock_def unique_lock_destroyed_def shared_lock_destroyed_def
      upgrade_lock_destroyed_def default_constructed_def release_def move_constructed_def
      unique_lock_from_upgrade_def upgrade_lock_from_unique_def shared_lock_from_unique_def
      move_assigned_def scoped_upgrade_def scoped_upgrade_destroyed_def mutex_def Let_def)

theorem guards_without_mutex_call_nothing_witness:
  "\<not> owns_lock (release (constructed_on 7))
   \<and> unique_lock_destroyed (release (constructed_on 7)) = []
   \<and> shared_lock_destroyed (release (constructed_on 7)) = []
   \<and> upgrade_lock_destroyed (release (constructed_on 7)) = []
   \<and> (0 :: nat) \<noteq> 1
   \<and> \<not> owns_lock (move_assigned 0 1 (\<lambda>a. constructed_on 7) 1)
   \<and> snd (scoped_upgrade (release (constructed_on 7))) = []
   \<and> scoped_upgrade_destroyed (fst (scoped_upgrade (release (constructed_on 7)))) = []"
proof -
  have h: "\<not> owns_lock (release (constructed_on 7))"
    by (simp add: owns_lock_def release_def)
  have d: "(0 :: nat) \<noteq> 1"
    by simp
  from guards_without_mutex_call_nothing
    [of "release (constructed_on 7)" 0 1 "\<lambda>a. constructed_on 7"] h d
  show ?thesis by blast
qed

end
